theory Spec2Isabelle
  imports Main "HOL-Library.Multiset" "HOL-Library.Code_Target_Nat"
begin

section \<open>Strings and regular expressions of the host language\<close>

text \<open>
  A TypeScript string is a sequence of 16-bit code units, and \<open>length\<close>, indexing and the
  regular expressions of the source (none has the \<open>u\<close> flag) all work on code units. Every
  Hangul syllable U+AC00..U+D7A3 is one code unit. A string is modelled as the list of its
  code units, written in hexadecimal so that a literal can be read against a code chart.
\<close>

type_synonym ustring = "nat list"

definition asc :: "string \<Rightarrow> ustring" where
  \<comment> \<open>the code units of an ASCII literal\<close>
  "asc cs = map of_char cs"

text \<open>
  The regular expressions of the source are kept as syntax trees and run by a backtracking
  matcher, so that each pattern of the source is a value that can be read against its
  literal. \<open>Cls\<close> is a character class given by inclusive ranges, \<open>Rep mn mx r\<close> the greedy
  quantifier \<open>r{mn,mx}\<close> (\<open>None\<close> for no upper bound), \<open>WordB\<close> is \<open>\b\<close>, \<open>Eoi\<close> is \<open>$\<close>
  (no pattern has the \<open>m\<close> flag) and \<open>Grp\<close> is the capture group (no pattern has more
  than one).
\<close>

datatype regex =
    Eps
  | Chr nat
  | Cls "(nat \<times> nat) list"
  | Seq regex regex
  | Alt regex regex
  | Rep nat "nat option" regex
  | WordB
  | Eoi
  | Grp regex

text \<open>A matcher state: the position reached and what the capture group holds.\<close>

type_synonym mstate = "nat \<times> (nat \<times> nat) option"

definition inCls :: "(nat \<times> nat) list \<Rightarrow> nat \<Rightarrow> bool" where
  "inCls rs c = list_ex (\<lambda>(lo, hi). lo \<le> c \<and> c \<le> hi) rs"

definition upperC :: "(nat \<times> nat) list" where "upperC = [(0x41, 0x5A)]"
definition lowerC :: "(nat \<times> nat) list" where "lowerC = [(0x61, 0x7A)]"
definition letterC :: "(nat \<times> nat) list" where "letterC = [(0x61, 0x7A), (0x41, 0x5A)]"
definition digitC :: "(nat \<times> nat) list" where "digitC = [(0x30, 0x39)]"
definition hangulC :: "(nat \<times> nat) list" where "hangulC = [(0xAC00, 0xD7A3)]"

definition wordC :: "(nat \<times> nat) list" where
  \<comment> \<open>\<open>\w\<close>: letters, digits and the underscore\<close>
  "wordC = [(0x61, 0x7A), (0x41, 0x5A), (0x30, 0x39), (0x5F, 0x5F)]"

definition spaceC :: "(nat \<times> nat) list" where
  \<comment> \<open>\<open>\s\<close>, which is also what \<open>trim\<close> strips: white space and line terminators\<close>
  "spaceC = [(0x9, 0xD), (0x20, 0x20), (0xA0, 0xA0), (0x1680, 0x1680), (0x2000, 0x200A),
             (0x2028, 0x2029), (0x202F, 0x202F), (0x205F, 0x205F), (0x3000, 0x3000),
             (0xFEFF, 0xFEFF)]"

definition isWordAt :: "ustring \<Rightarrow> nat \<Rightarrow> bool" where
  "isWordAt s i = (i < length s \<and> inCls wordC (s ! i))"

text \<open>
  The greedy quantifier as the language defines it: while iterations are still required
  (\<open>mn > 0\<close>) the body must match; afterwards one more iteration is tried first and must
  consume something, and stopping here is the last alternative. \<open>k\<close> is the number of
  iterations still allowed.
\<close>

fun iter :: "(mstate \<Rightarrow> mstate list) \<Rightarrow> nat \<Rightarrow> nat \<Rightarrow> mstate \<Rightarrow> mstate list" where
  "iter f mn 0 st = [st]"
| "iter f mn (Suc k) st =
     concat (map (iter f (mn - 1) k) (filter (\<lambda>st'. 0 < mn \<or> fst st < fst st') (f st)))
     @ (if mn = 0 then [st] else [])"

text \<open>
  \<open>matcher r s st\<close> lists, in the order in which backtracking would find them, the states
  in which \<open>r\<close> can end when started in \<open>st\<close> on the input \<open>s\<close>. An unbounded quantifier
  is given \<open>mn + length s\<close> iterations: at most \<open>mn\<close> of them may consume nothing.
\<close>

primrec matcher :: "regex \<Rightarrow> ustring \<Rightarrow> mstate \<Rightarrow> mstate list" where
  "matcher Eps s = (\<lambda>st. [st])"
| "matcher (Chr c) s = (\<lambda>st. if fst st < length s \<and> s ! fst st = c then [(Suc (fst st), snd st)] else [])"
| "matcher (Cls rs) s = (\<lambda>st. if fst st < length s \<and> inCls rs (s ! fst st) then [(Suc (fst st), snd st)] else [])"
| "matcher (Seq a b) s = (\<lambda>st. concat (map (matcher b s) (matcher a s st)))"
| "matcher (Alt a b) s = (\<lambda>st. matcher a s st @ matcher b s st)"
| "matcher (Rep mn mx r) s =
     (\<lambda>st. iter (matcher r s) mn (case mx of None \<Rightarrow> mn + length s | Some k \<Rightarrow> k) st)"
| "matcher WordB s =
     (\<lambda>st. if (0 < fst st \<and> isWordAt s (fst st - 1)) \<noteq> isWordAt s (fst st) then [st] else [])"
| "matcher Eoi s = (\<lambda>st. if fst st = length s then [st] else [])"
| "matcher (Grp r) s = (\<lambda>st. map (\<lambda>st'. (fst st', Some (fst st, fst st'))) (matcher r s st))"

fun lit :: "ustring \<Rightarrow> regex" where
  "lit [] = Eps"
| "lit [c] = Chr c"
| "lit (c # cs) = Seq (Chr c) (lit cs)"

fun alts :: "regex list \<Rightarrow> regex" where
  "alts [] = Cls []"
| "alts [r] = r"
| "alts (r # rs) = Alt r (alts rs)"

text \<open>
  \<open>RegExp.prototype.exec\<close>: the first start position at or after \<open>lastIndex\<close> at which the
  pattern matches, with the first match there: (start, end, capture).
\<close>

fun search :: "regex \<Rightarrow> ustring \<Rightarrow> nat \<Rightarrow> nat \<Rightarrow> (nat \<times> mstate) option" where
  "search r s i 0 = None"
| "search r s i (Suc n) =
     (case matcher r s (i, None) of [] \<Rightarrow> search r s (Suc i) n | st # _ \<Rightarrow> Some (i, st))"

definition exec :: "regex \<Rightarrow> ustring \<Rightarrow> nat \<Rightarrow> (nat \<times> mstate) option" where
  "exec r s lastIndex =
     (if length s < lastIndex then None else search r s lastIndex (Suc (length s) - lastIndex))"

definition substring :: "ustring \<Rightarrow> nat \<Rightarrow> nat \<Rightarrow> ustring" where
  "substring s i e = take (e - i) (drop i s)"

subsection \<open>What every match satisfies\<close>

lemma iter_bounds:
  assumes f: "\<And>st st'. fst st \<le> length s \<Longrightarrow> st' \<in> set (f st) \<Longrightarrow> fst st \<le> fst st' \<and> fst st' \<le> length s"
  shows "fst st \<le> length s \<Longrightarrow> st' \<in> set (iter f mn k st) \<Longrightarrow> fst st \<le> fst st' \<and> fst st' \<le> length s"
proof (induction k arbitrary: mn st)
  case 0
  then show ?case by simp
next
  case (Suc k)
  from Suc.prems(2) consider
    (step) st1 where "st1 \<in> set (f st)" "st' \<in> set (iter f (mn - 1) k st1)"
    | (stop) "st' = st"
    by (auto split: if_splits)
  then show ?case
  proof cases
    case step
    from f[OF Suc.prems(1) step(1)] have a: "fst st \<le> fst st1" "fst st1 \<le> length s" by simp_all
    from Suc.IH[OF a(2) step(2)] a show ?thesis by simp
  next
    case stop
    with Suc.prems(1) show ?thesis by simp
  qed
qed

lemma matcher_bounds:
  "fst st \<le> length s \<Longrightarrow> st' \<in> set (matcher r s st) \<Longrightarrow> fst st \<le> fst st' \<and> fst st' \<le> length s"
proof (induction r arbitrary: st st')
  case (Seq a b)
  from Seq.prems(2) obtain st1 where 1: "st1 \<in> set (matcher a s st)" "st' \<in> set (matcher b s st1)"
    by auto
  from Seq.IH(1)[OF Seq.prems(1) 1(1)] have a: "fst st \<le> fst st1" "fst st1 \<le> length s" by simp_all
  from Seq.IH(2)[OF a(2) 1(2)] a show ?case by simp
next
  case (Rep mn mx r)
  from Rep.prems(2) have "st' \<in> set (iter (matcher r s) mn (case mx of None \<Rightarrow> mn + length s | Some k \<Rightarrow> k) st)"
    by simp
  with iter_bounds[of s "matcher r s", OF Rep.IH Rep.prems(1)] show ?case by blast
next
  case (Alt a b)
  from Alt.prems(2) have "st' \<in> set (matcher a s st) \<or> st' \<in> set (matcher b s st)" by simp
  with Alt.IH Alt.prems(1) show ?case by blast
next
  case (Grp r)
  from Grp.prems(2) obtain st1 where "st1 \<in> set (matcher r s st)" "fst st' = fst st1" by auto
  with Grp.IH Grp.prems(1) show ?case by metis
next
  case WordB
  then show ?case by (simp split: if_splits)
next
  case Eoi
  then show ?case by (simp split: if_splits)
next
  case Eps
  then show ?case by simp
next
  case (Chr c)
  then show ?case by (auto split: if_splits)
next
  case (Cls rs)
  then show ?case by (auto split: if_splits)
qed

lemma search_bounds:
  "i \<le> length s \<Longrightarrow> search r s i n = Some (b, st) \<Longrightarrow> i + n \<le> Suc (length s) \<Longrightarrow>
   i \<le> b \<and> b \<le> fst st \<and> fst st \<le> length s"
proof (induction n arbitrary: i)
  case 0
  then show ?case by simp
next
  case (Suc n)
  show ?case
  proof (cases "matcher r s (i, None)")
    case Nil
    with Suc.prems have "search r s (Suc i) n = Some (b, st)" by simp
    moreover from Suc.prems Nil have "n \<noteq> 0" by (cases n) auto
    ultimately show ?thesis using Suc.IH[of "Suc i"] Suc.prems(3) by auto
  next
    case (Cons st0 rest)
    with Suc.prems have eq: "b = i" "st = st0" by simp_all
    have "st0 \<in> set (matcher r s (i, None))" using Cons by simp
    from matcher_bounds[of "(i, None)" s st0 r] this Suc.prems(1) eq show ?thesis by simp
  qed
qed

lemma exec_bounds:
  "exec r s k = Some (b, st) \<Longrightarrow> k \<le> b \<and> b \<le> fst st \<and> fst st \<le> length s"
proof -
  assume a: "exec r s k = Some (b, st)"
  then have k: "k \<le> length s" by (simp add: exec_def split: if_splits)
  with a have "search r s k (Suc (length s) - k) = Some (b, st)" by (simp add: exec_def)
  from search_bounds[OF k this] k show ?thesis by simp
qed


primrec minlen :: "regex \<Rightarrow> nat" where
  "minlen Eps = 0"
| "minlen (Chr c) = 1"
| "minlen (Cls rs) = 1"
| "minlen (Seq a b) = minlen a + minlen b"
| "minlen (Alt a b) = min (minlen a) (minlen b)"
| "minlen (Rep mn mx r) = (case mx of None \<Rightarrow> mn | Some k \<Rightarrow> min mn k) * minlen r"
| "minlen WordB = 0"
| "minlen Eoi = 0"
| "minlen (Grp r) = minlen r"

lemma iter_minlen:
  assumes f: "\<And>st st'. st' \<in> set (f st) \<Longrightarrow> fst st + a \<le> fst st'"
  shows "st' \<in> set (iter f mn k st) \<Longrightarrow> fst st + min mn k * a \<le> fst st'"
proof (induction k arbitrary: mn st)
  case 0
  then show ?case by simp
next
  case (Suc k)
  from Suc.prems consider
    (step) st1 where "st1 \<in> set (f st)" "st' \<in> set (iter f (mn - 1) k st1)"
    | (stop) "st' = st" "mn = 0"
    by (auto split: if_splits)
  then show ?case
  proof cases
    case step
    have 1: "fst st + a \<le> fst st1" by (rule f[OF step(1)])
    have 2: "fst st1 + min (mn - 1) k * a \<le> fst st'" by (rule Suc.IH[OF step(2)])
    have "min mn (Suc k) * a \<le> a + min (mn - 1) k * a" by (cases mn) simp_all
    with 1 2 show ?thesis by linarith
  next
    case stop
    then show ?thesis by simp
  qed
qed

lemma matcher_minlen:
  "st' \<in> set (matcher r s st) \<Longrightarrow> fst st + minlen r \<le> fst st'"
proof (induction r arbitrary: st st')
  case (Seq a b)
  from Seq.prems obtain st1 where 1: "st1 \<in> set (matcher a s st)" "st' \<in> set (matcher b s st1)"
    by auto
  from Seq.IH(1)[OF 1(1)] Seq.IH(2)[OF 1(2)] show ?case by simp
next
  case (Alt a b)
  from Alt.prems have "st' \<in> set (matcher a s st) \<or> st' \<in> set (matcher b s st)" by simp
  then show ?case
  proof
    assume "st' \<in> set (matcher a s st)"
    from Alt.IH(1)[OF this] show ?thesis by simp
  next
    assume "st' \<in> set (matcher b s st)"
    from Alt.IH(2)[OF this] show ?thesis by simp
  qed
next
  case (Rep mn mx r)
  show ?case
  proof (cases mx)
    case None
    with Rep.prems have "st' \<in> set (iter (matcher r s) mn (mn + length s) st)" by simp
    from iter_minlen[of "matcher r s" "minlen r", OF Rep.IH this] None show ?thesis by simp
  next
    case (Some k)
    with Rep.prems have "st' \<in> set (iter (matcher r s) mn k st)" by simp
    from iter_minlen[of "matcher r s" "minlen r", OF Rep.IH this] Some show ?thesis by simp
  qed
next
  case (Grp r)
  from Grp.prems obtain st1 where "st1 \<in> set (matcher r s st)" "fst st' = fst st1" by auto
  with Grp.IH[of st1 st] show ?case by simp
next
  case WordB
  then show ?case by (simp split: if_splits)
next
  case Eoi
  then show ?case by (simp split: if_splits)
next
  case Eps
  then show ?case by simp
next
  case (Chr c)
  then show ?case by (auto split: if_splits)
next
  case (Cls rs)
  then show ?case by (auto split: if_splits)
qed

lemma search_Some:
  "search r s i n = Some (b, st) \<Longrightarrow> st \<in> set (matcher r s (b, None))"
proof (induction n arbitrary: i)
  case 0
  then show ?case by simp
next
  case (Suc n)
  then show ?case by (cases "matcher r s (i, None)") auto
qed

lemma exec_Some: "exec r s k = Some (b, st) \<Longrightarrow> st \<in> set (matcher r s (b, None))"
  by (auto simp: exec_def split: if_splits dest: search_Some)

lemma exec_minlen: "exec r s k = Some (b, st) \<Longrightarrow> b + minlen r \<le> fst st"
  using matcher_minlen[of st r s "(b, None)"] exec_Some[of r s k b st] by simp

subsection \<open>Global matching, replacing, trimming\<close>

text \<open>
  The matches that a pattern with the \<open>g\<close> flag yields from \<open>lastIndex\<close> on, as
  \<open>String.prototype.match\<close> and \<open>replace\<close> step through them: after an empty match the
  next search starts one code unit further on.
\<close>

function matchSpans :: "regex \<Rightarrow> ustring \<Rightarrow> nat \<Rightarrow> (nat \<times> mstate) list" where
  "matchSpans r s lastIndex =
     (case exec r s lastIndex of
        None \<Rightarrow> []
      | Some (b, st) \<Rightarrow> (b, st) # matchSpans r s (if fst st = b then Suc (fst st) else fst st))"
  by pat_completeness auto
termination
proof (relation "measure (\<lambda>(r, s, k). Suc (length s) - k)")
  show "wf (measure (\<lambda>(r, s, k). Suc (length s) - k))" by simp
next
  fix r :: regex and s :: ustring and lastIndex :: nat and x2 :: "nat \<times> mstate" and b :: nat and st :: mstate
  assume "exec r s lastIndex = Some x2" "(b, st) = x2"
  then have "exec r s lastIndex = Some (b, st)" by simp
  from exec_bounds[OF this]
  show "((r, s, if fst st = b then Suc (fst st) else fst st), r, s, lastIndex)
        \<in> measure (\<lambda>(r, s, k). Suc (length s) - k)"
    by auto
qed

declare matchSpans.simps [simp del]

definition match_g :: "regex \<Rightarrow> ustring \<Rightarrow> ustring list" where
  \<comment> \<open>\<open>text.match(pattern) || []\<close> for a pattern with the \<open>g\<close> flag\<close>
  "match_g r s = map (\<lambda>(b, st). substring s b (fst st)) (matchSpans r s 0)"

definition replaceFirst :: "regex \<Rightarrow> ustring \<Rightarrow> ustring" where
  \<comment> \<open>\<open>s.replace(pattern, '')\<close> for a pattern without the \<open>g\<close> flag\<close>
  "replaceFirst r s =
     (case exec r s 0 of None \<Rightarrow> s | Some (b, st) \<Rightarrow> take b s @ drop (fst st) s)"

fun removeSpans :: "ustring \<Rightarrow> nat \<Rightarrow> (nat \<times> mstate) list \<Rightarrow> ustring" where
  "removeSpans s pos [] = drop pos s"
| "removeSpans s pos ((b, st) # rest) = substring s pos b @ removeSpans s (fst st) rest"

definition replace_g :: "regex \<Rightarrow> ustring \<Rightarrow> ustring" where
  \<comment> \<open>\<open>s.replace(pattern, '')\<close> for a pattern with the \<open>g\<close> flag\<close>
  "replace_g r s = removeSpans s 0 (matchSpans r s 0)"

definition trim :: "ustring \<Rightarrow> ustring" where
  "trim s = rev (dropWhile (inCls spaceC) (rev (dropWhile (inCls spaceC) s)))"

definition toLowerCase :: "ustring \<Rightarrow> ustring" where
  \<comment> \<open>on the ASCII letters, which is all that a match of \<open>enPattern\<close> holds\<close>
  "toLowerCase w = map (\<lambda>c. if inCls upperC c then c + 0x20 else c) w"

fun seqs :: "regex list \<Rightarrow> regex" where
  "seqs [] = Eps"
| "seqs [r] = r"
| "seqs (r # rs) = Seq r (seqs rs)"


section \<open>The keyword extractor\<close>

text \<open>
  The class \<open>KeywordExtractor\<close>: its four private fields, set once by the constructor.
  \<open>maxTags\<close> is a \<open>number\<close> of the source; the settings dialogue stores what \<open>parseInt\<close>
  returns, so it is modelled as an integer.
  A call of the constructor without an argument is \<open>KeywordExtractor 10\<close>, and a call of
  \<open>extractKeywords\<close> without a title is one with the empty title.
\<close>

record keyword_extractor =
  maxTags :: int
  stopwordsKo :: "ustring set"
  stopwordsEn :: "ustring set"
  suffixPattern :: regex

text \<open>
  The error that the specification expects of the constructor. The constructor of the source
  has no \<open>throw\<close> and no test of its argument, so no branch of the model returns it.
\<close>

datatype error = ConfigurationError

definition KeywordExtractor :: "int \<Rightarrow> error + keyword_extractor" where
  "KeywordExtractor n = Inr \<lparr>
     maxTags = n,
     stopwordsKo = set [
         [0xC774], [0xADF8], [0xC800], [0xAC83], [0xC218], [0xB4F1], [0xBC0F], [0xC758],
         [0xAC00], [0xC744], [0xB97C], [0xC5D0], [0xC5D0, 0xC11C], [0xC73C, 0xB85C], [0xB85C],
         [0xC640], [0xACFC], [0xB3C4], [0xB9CC], [0xD558, 0xB2E4], [0xC788, 0xB2E4],
         [0xC5C6, 0xB2E4], [0xB418, 0xB2E4], [0xC774, 0xB2E4], [0xC544, 0xB2C8, 0xB2E4],
         [0xD558, 0xACE0], [0xD55C, 0xB2E4], [0xC774, 0xB294], [0xC774, 0xD558],
         [0xB530, 0xB77C], [0xD1B5, 0xD574], [0xC704, 0xD55C], [0xB300, 0xD55C],
         [0xAD00, 0xD55C], [0xB54C, 0xBB38], [0xACBD, 0xC6B0], [0xC774, 0xD6C4],
         [0xB2E4, 0xB978], [0xC5EC, 0xB7EC], [0xAC19, 0xC740], [0xB2E4, 0xC591, 0xD55C],
         [0xC911, 0xC694, 0xD55C], [0xD544, 0xC694, 0xD55C], [0xAC00, 0xB2A5, 0xD55C],
         [0xC9C1, 0xC811, 0xC801, 0xC778], [0xC7A5, 0xAE30, 0xC801, 0xC778],
         [0xBC30, 0xACBD, 0xC9C0, 0xC2DD], [0xACB0, 0xB860], [0xB9E5, 0xB77D], [0xAD00, 0xACC4]],
     stopwordsEn = set (map asc [
         ''the'', ''a'', ''an'', ''and'', ''or'', ''but'', ''in'', ''on'', ''at'', ''to'',
         ''for'', ''of'', ''with'', ''by'', ''from'', ''is'', ''was'', ''are'', ''were'',
         ''be'', ''been'', ''being'', ''have'', ''has'', ''had'']),
     suffixPattern = Seq (alts (map lit [
         [0xC740], [0xB294], [0xC774], [0xAC00], [0xC744], [0xB97C], [0xC758], [0xC5D0],
         [0xC5D0, 0xC11C], [0xC73C, 0xB85C], [0xB85C], [0xC640], [0xACFC], [0xB3C4], [0xB9CC],
         [0xBD80, 0xD130], [0xAE4C, 0xC9C0], [0xCC98, 0xB7FC], [0xAC19, 0xC774],
         [0xBCF4, 0xB2E4], [0xB77C, 0xACE0], [0xB77C, 0xB294], [0xC774, 0xB77C],
         [0xB77C, 0xBA70], [0xC5D0, 0xB3C4], [0xC5D0, 0xB294], [0xC73C, 0xB85C, 0xB294],
         [0xC5D0, 0xC11C, 0xB294], [0xC774, 0xB098], [0xB098], [0xB4E0, 0xC9C0],
         [0xB4E0, 0xAC00], [0xC774, 0xB780], [0xB780], [0xC774, 0xBA74], [0xBA74],
         [0xD558, 0xBA74], [0xB2E4, 0xBA74], [0xB77C, 0xBA74], [0xD574, 0xC11C],
         [0xD574, 0xB3C4], [0xD558, 0xB294], [0xD558, 0xACE0], [0xD558, 0xBA70],
         [0xD574, 0xC57C], [0xC785, 0xB2C8, 0xB2E4], [0xD569, 0xB2C8, 0xB2E4],
         [0xB429, 0xB2C8, 0xB2E4], [0xC2B5, 0xB2C8, 0xB2E4], [0x3142, 0xB2C8, 0xB2E4],
         [0xB2C8, 0xB2E4]])) Eoi \<rparr>"

subsection \<open>The patterns of the three extraction modes\<close>

definition koPattern :: regex where
  \<comment> \<open>\<^verbatim>\<open>/[\uAC00-\uD7A3]{2,}/g\<close>\<close>
  "koPattern = Rep 2 None (Cls hangulC)"

definition enPattern :: regex where
  \<comment> \<open>\<^verbatim>\<open>/\b[A-Z][a-zA-Z]{2,}\b|\b[A-Z]{2,}\b/g\<close>\<close>
  "enPattern = Alt (seqs [WordB, Cls upperC, Rep 2 None (Cls letterC), WordB])
                   (seqs [WordB, Rep 2 None (Cls upperC), WordB])"

definition nameC :: "(nat \<times> nat) list" where
  \<comment> \<open>\<^verbatim>\<open>[\uAC00-\uD7A3A-Za-z]\<close>\<close>
  "nameC = [(0xAC00, 0xD7A3), (0x41, 0x5A), (0x61, 0x7A)]"

definition companyPattern :: regex where
  \<comment> \<open>\<^verbatim>\<open>/(?:\uC8FC\uC2DD\uD68C\uC0AC|\u321C)\s*([\uAC00-\uD7A3A-Za-z]+(?:\s+[\uAC00-\uD7A3A-Za-z]+)?)/g\<close>\<close>
  "companyPattern =
     seqs [Alt (lit [0xC8FC, 0xC2DD, 0xD68C, 0xC0AC]) (lit [0x321C]),
           Rep 0 None (Cls spaceC),
           Grp (Seq (Rep 1 None (Cls nameC))
                    (Rep 0 (Some 1) (Seq (Rep 1 None (Cls spaceC)) (Rep 1 None (Cls nameC)))))]"

definition capitalizedPattern :: regex where
  \<comment> \<open>\<^verbatim>\<open>/\b[A-Z][a-z]+(?:\s+[A-Z][a-z]+)+\b/g\<close>\<close>
  "capitalizedPattern =
     seqs [WordB, Cls upperC, Rep 1 None (Cls lowerC),
           Rep 1 None (seqs [Rep 1 None (Cls spaceC), Cls upperC, Rep 1 None (Cls lowerC)]),
           WordB]"

definition acronymPattern :: regex where
  \<comment> \<open>\<^verbatim>\<open>/\b[A-Z]{2,}\b/g\<close>\<close>
  "acronymPattern = seqs [WordB, Rep 2 None (Cls upperC), WordB]"

definition moneyPattern :: regex where
  \<comment> \<open>\<^verbatim>\<open>/\d+(?:\uC870|\uC5B5|\uB9CC)?\uC6D0/g\<close>\<close>
  "moneyPattern =
     seqs [Rep 1 None (Cls digitC), Rep 0 (Some 1) (alts [Chr 0xC870, Chr 0xC5B5, Chr 0xB9CC]),
           Chr 0xC6D0]"

definition datePattern :: regex where
  \<comment> \<open>\<^verbatim>\<open>/\d{4}\uB144|\d{1,2}\uC6D4\d{1,2}\uC77C/g\<close>\<close>
  "datePattern =
     Alt (seqs [Rep 4 (Some 4) (Cls digitC), Chr 0xB144])
         (seqs [Rep 1 (Some 2) (Cls digitC), Chr 0xC6D4, Rep 1 (Some 2) (Cls digitC), Chr 0xC77C])"

definition largeNumPattern :: regex where
  \<comment> \<open>\<^verbatim>\<open>/\d+(?:,\d{3})*(?:\uBA85|\uAC74|\uD68C|\uAC1C)/g\<close>\<close>
  "largeNumPattern =
     seqs [Rep 1 None (Cls digitC), Rep 0 None (Seq (Chr 0x2C) (Rep 3 (Some 3) (Cls digitC))),
           alts [Chr 0xBA85, Chr 0xAC74, Chr 0xD68C, Chr 0xAC1C]]"


subsection \<open>Suffix stripping\<close>

lemma replaceFirst_length: "length (replaceFirst r s) \<le> length s"
proof (cases "exec r s 0")
  case None
  then show ?thesis by (simp add: replaceFirst_def)
next
  case (Some a)
  obtain b st where a: "a = (b, st)" by (cases a)
  from exec_bounds[of r s 0 b st] Some a have "b \<le> fst st" "fst st \<le> length s" by simp_all
  with Some a show ?thesis by (simp add: replaceFirst_def)
qed

text \<open>
  The loop of \<open>cleanKoreanWord\<close>, with its two variables as arguments:
  \<^verbatim>\<open>while (cleaned.length !== prevLength && cleaned.length >= 2)\<close>.
\<close>

function cleanLoop :: "keyword_extractor \<Rightarrow> ustring \<Rightarrow> nat \<Rightarrow> ustring" where
  "cleanLoop this cleaned prevLength =
     (if length cleaned \<noteq> prevLength \<and> 2 \<le> length cleaned
      then cleanLoop this (replaceFirst (suffixPattern this) cleaned) (length cleaned)
      else cleaned)"
  by pat_completeness auto
termination
proof (relation "measure (\<lambda>(this, c, p). 2 * length c + (if length c \<noteq> p then 1 else 0))")
  show "wf (measure (\<lambda>(this, c, p). 2 * length c + (if length c \<noteq> p then 1 else 0)))" by simp
next
  fix this :: keyword_extractor and cleaned :: ustring and prevLength :: nat
  assume "length cleaned \<noteq> prevLength \<and> 2 \<le> length cleaned"
  with replaceFirst_length[of "suffixPattern this" cleaned]
  show "((this, replaceFirst (suffixPattern this) cleaned, length cleaned), this, cleaned, prevLength)
        \<in> measure (\<lambda>(this, c, p). 2 * length c + (if length c \<noteq> p then 1 else 0))"
    by auto
qed

declare cleanLoop.simps [simp del]

definition cleanKoreanWord :: "keyword_extractor \<Rightarrow> ustring \<Rightarrow> ustring" where
  "cleanKoreanWord this word = cleanLoop this word 0"

subsection \<open>The three extraction modes\<close>

definition extractGeneralKeywords :: "keyword_extractor \<Rightarrow> ustring \<Rightarrow> ustring list" where
  "extractGeneralKeywords this text =
     (let koMatches = match_g koPattern text;
          keywords = foldl (\<lambda>keywords word.
                       let cleaned = cleanKoreanWord this word
                       in if 2 \<le> length cleaned \<and> cleaned \<notin> stopwordsKo this
                          then keywords @ [cleaned] else keywords) [] koMatches;
          enMatches = match_g enPattern text;
          enFiltered = filter (\<lambda>w. toLowerCase w \<notin> stopwordsEn this) enMatches
      in keywords @ enFiltered)"

text \<open>
  \<open>match[1]\<close>. The group of \<open>companyPattern\<close> is not optional, so every match sets it
  (\<open>company_capture\<close> below) and the \<open>undefined\<close> of an unset group does not arise.
\<close>

definition capture1 :: "ustring \<Rightarrow> mstate \<Rightarrow> ustring" where
  "capture1 s st = (case snd st of None \<Rightarrow> [] | Some (g, e) \<Rightarrow> substring s g e)"

lemma minlen_companyPattern: "minlen companyPattern = 2"
  by (simp add: companyPattern_def)

lemma company_capture:
  assumes "exec companyPattern s k = Some (b, st)"
  shows "\<exists>g. snd st = Some (g, fst st)"
proof -
  from exec_Some[OF assms] show ?thesis by (auto simp: companyPattern_def)
qed

text \<open>
  The \<open>exec\<close> loop over the company names. \<open>exec\<close> leaves \<open>lastIndex\<close> at the end of the
  match, also after an empty one; the loop ends because no match of \<open>companyPattern\<close> is
  empty.
\<close>

function companyLoop :: "ustring \<Rightarrow> nat \<Rightarrow> ustring list \<Rightarrow> ustring list" where
  "companyLoop text lastIndex properNouns =
     (case exec companyPattern text lastIndex of
        None \<Rightarrow> properNouns
      | Some (b, st) \<Rightarrow>
          (let company = trim (capture1 text st)
           in companyLoop text (fst st)
                (if 2 \<le> length company then properNouns @ [company] else properNouns)))"
  by pat_completeness auto
termination
proof (relation "measure (\<lambda>(s, k, acc). Suc (length s) - k)")
  show "wf (measure (\<lambda>(s, k, acc). Suc (length s) - k))" by simp
next
  fix s :: ustring and lastIndex :: nat and properNouns :: "ustring list"
    and x2 :: "nat \<times> mstate" and b :: nat and st :: mstate and company :: ustring
  assume "exec companyPattern s lastIndex = Some x2" "(b, st) = x2"
  then have e: "exec companyPattern s lastIndex = Some (b, st)" by simp
  from exec_bounds[OF e] exec_minlen[OF e] minlen_companyPattern
  show "((s, fst st, if 2 \<le> length company then properNouns @ [company] else properNouns),
         s, lastIndex, properNouns) \<in> measure (\<lambda>(s, k, acc). Suc (length s) - k)"
    by auto
qed

declare companyLoop.simps [simp del]

definition extractProperNouns :: "keyword_extractor \<Rightarrow> ustring \<Rightarrow> ustring list" where
  "extractProperNouns this text =
     (let properNouns = companyLoop text 0 [];
          capitalizedMatches = match_g capitalizedPattern text;
          properNouns = properNouns @ capitalizedMatches;
          acronymMatches = match_g acronymPattern text;
          properNouns = properNouns @ acronymMatches
      in filter (\<lambda>pn. 0 < length pn) (map trim properNouns))"

definition extractNumbers :: "keyword_extractor \<Rightarrow> ustring \<Rightarrow> ustring list" where
  "extractNumbers this text =
     (let moneyMatches = match_g moneyPattern text;
          dateMatches = match_g datePattern text;
          largeNumMatches = match_g largeNumPattern text
      in moneyMatches @ dateMatches @ largeNumMatches)"


subsection \<open>The frequency table\<close>

text \<open>
  \<open>freq\<close> is an ordinary object created by \<open>{}\<close>, so it inherits from \<open>Object.prototype\<close>.
  Its own properties are kept in the order of their creation. A value is a number, or, once
  a keyword has found an inherited function under its name, a string: the source text of
  that function followed by digits \<open>1\<close> (\<open>FunctionText n\<close> has \<open>n\<close> of them).
\<close>

datatype jsvalue = Num nat | FunctionText nat

type_synonym KeywordCount = "(ustring \<times> jsvalue) list"

definition objectPrototypeFunctions :: "ustring list" where
  \<comment> \<open>the names under which \<open>Object.prototype\<close> holds a function\<close>
  "objectPrototypeFunctions = map asc
     [''constructor'', ''hasOwnProperty'', ''isPrototypeOf'', ''propertyIsEnumerable'',
      ''toLocaleString'', ''toString'', ''valueOf'', ''__defineGetter__'', ''__defineSetter__'',
      ''__lookupGetter__'', ''__lookupSetter__'']"

fun setProp :: "KeywordCount \<Rightarrow> ustring \<Rightarrow> jsvalue \<Rightarrow> KeywordCount" where
  \<comment> \<open>assignment to a property: an own property keeps its place, a new one comes last\<close>
  "setProp [] k v = [(k, v)]"
| "setProp ((k', v') # freq) k v = (if k' = k then (k, v) # freq else (k', v') # setProp freq k v)"

definition plusOne :: "jsvalue \<Rightarrow> jsvalue" where
  \<comment> \<open>\<open>v + 1\<close>: addition on a number, concatenation of \<open>"1"\<close> on a string\<close>
  "plusOne v = (case v of Num n \<Rightarrow> Num (n + 1) | FunctionText n \<Rightarrow> FunctionText (n + 1))"

text \<open>
  The statement \<^verbatim>\<open>freq[keyword] = (freq[keyword] || 0) + 1\<close>. An own property is never
  falsy here apart from the number 0, for which \<open>|| 0\<close> changes nothing. Where the object
  has no own property of that name, the read goes to \<open>Object.prototype\<close>:
  \<^item> under \<open>__proto__\<close> it finds the prototype object, and the assignment of the resulting
    string goes to the inherited setter, which ignores a value that is no object;
  \<^item> under the name of an inherited function it finds that function, which is truthy, and
    \<open>+ 1\<close> appends \<open>"1"\<close> to its source text;
  \<^item> under any other name it finds \<open>undefined\<close>, and the count starts at \<open>0 + 1\<close>.
\<close>

definition increment :: "KeywordCount \<Rightarrow> ustring \<Rightarrow> KeywordCount" where
  "increment freq keyword =
     (case map_of freq keyword of
        Some v \<Rightarrow> setProp freq keyword (plusOne v)
      | None \<Rightarrow>
          if keyword = asc ''__proto__'' then freq
          else if keyword \<in> set objectPrototypeFunctions
               then setProp freq keyword (FunctionText 1)
               else setProp freq keyword (Num 1))"

definition countFrequency :: "keyword_extractor \<Rightarrow> ustring list \<Rightarrow> KeywordCount" where
  "countFrequency this keywords = foldl increment [] keywords"

subsection \<open>Ranking\<close>

text \<open>
  \<open>Object.entries\<close> lists the own properties whose name is an array index (the canonical
  decimal form of an integer below \<open>2^32 - 1\<close>) first, in ascending numeric order, and then
  the others in the order of their creation.
\<close>

definition decimal :: "ustring \<Rightarrow> nat" where
  "decimal k = foldl (\<lambda>n c. 10 * n + (c - 0x30)) 0 k"

definition arrayIndex :: "ustring \<Rightarrow> nat option" where
  "arrayIndex k =
     (if k \<noteq> [] \<and> list_all (inCls digitC) k \<and> (k = [0x30] \<or> hd k \<noteq> 0x30)
         \<and> decimal k < 4294967295
      then Some (decimal k) else None)"

definition entries :: "KeywordCount \<Rightarrow> (ustring \<times> jsvalue) list" where
  "entries freq =
     sort_key (\<lambda>(k, v). case arrayIndex k of Some n \<Rightarrow> n | None \<Rightarrow> 0)
              (filter (\<lambda>(k, v). arrayIndex k \<noteq> None) freq)
     @ filter (\<lambda>(k, v). arrayIndex k = None) freq"

text \<open>
  The comparison function \<^verbatim>\<open>(a, b) => b[1] - a[1]\<close>. The subtraction converts its operands
  to numbers; the text of a function converts to \<open>NaN\<close>, written \<open>None\<close>.
\<close>

definition toNumber :: "jsvalue \<Rightarrow> int option" where
  "toNumber v = (case v of Num n \<Rightarrow> Some (int n) | FunctionText n \<Rightarrow> None)"

definition comparefn :: "ustring \<times> jsvalue \<Rightarrow> ustring \<times> jsvalue \<Rightarrow> int option" where
  "comparefn a b =
     (case (toNumber (snd b), toNumber (snd a)) of
        (Some x, Some y) \<Rightarrow> Some (x - y)
      | _ \<Rightarrow> None)"

text \<open>
  \<open>Array.prototype.sort\<close> takes a \<open>NaN\<close> from the comparison function as \<open>+0\<close> and is
  stable: elements that compare as equal keep their order. It is modelled as the stable
  insertion sort, with which every stable sort agrees when the comparison is consistent.
  Where a table mixes numbers with the text of a function the comparison is not consistent
  and the language leaves the order to the engine; the model then gives the order of the
  insertion sort, which need not be the engine's.
\<close>

definition sortCompare :: "('a \<Rightarrow> 'a \<Rightarrow> int option) \<Rightarrow> 'a \<Rightarrow> 'a \<Rightarrow> int" where
  "sortCompare cmp x y = (case cmp x y of None \<Rightarrow> 0 | Some v \<Rightarrow> v)"

fun insertSorted :: "('a \<Rightarrow> 'a \<Rightarrow> int option) \<Rightarrow> 'a \<Rightarrow> 'a list \<Rightarrow> 'a list" where
  "insertSorted cmp x [] = [x]"
| "insertSorted cmp x (y # ys) =
     (if sortCompare cmp x y \<le> 0 then x # y # ys else y # insertSorted cmp x ys)"

definition sortBy :: "('a \<Rightarrow> 'a \<Rightarrow> int option) \<Rightarrow> 'a list \<Rightarrow> 'a list" where
  "sortBy cmp xs = foldr (insertSorted cmp) xs []"

definition slice0 :: "'a list \<Rightarrow> int \<Rightarrow> 'a list" where
  \<comment> \<open>\<open>xs.slice(0, end)\<close>: a negative \<open>end\<close> counts from the end of the array\<close>
  "slice0 xs end =
     (let len = int (length xs);
          final = (if end < 0 then max (len + end) 0 else min end len)
      in take (nat final) xs)"

definition getTopKeywords :: "keyword_extractor \<Rightarrow> KeywordCount \<Rightarrow> int \<Rightarrow> ustring list" where
  "getTopKeywords this freq topN = slice0 (map fst (sortBy comparefn (entries freq))) topN"

subsection \<open>The public operation\<close>

text \<open>
  \<open>weightedKeywords\<close> is the array \<open>keywords\<close> of \<open>extractKeywords\<close> as it is handed to
  \<open>countFrequency\<close>, built by the four \<open>push\<close> statements in their order; the first of them
  is guarded by \<^verbatim>\<open>if (title)\<close>, which an empty title fails.
\<close>

definition weightedKeywords :: "keyword_extractor \<Rightarrow> ustring \<Rightarrow> ustring \<Rightarrow> ustring list" where
  "weightedKeywords this text title =
     (let keywords = [];
          keywords = (if title \<noteq> []
                      then (let titleKeywords = extractGeneralKeywords this title
                            in keywords @ titleKeywords @ titleKeywords @ titleKeywords)
                      else keywords);
          properNouns = extractProperNouns this text;
          keywords = keywords @ properNouns @ properNouns;
          bodyKeywords = extractGeneralKeywords this text;
          keywords = keywords @ bodyKeywords;
          numbers = extractNumbers this text;
          keywords = keywords @ numbers
      in keywords)"

definition extractKeywords :: "keyword_extractor \<Rightarrow> ustring \<Rightarrow> ustring \<Rightarrow> ustring list" where
  "extractKeywords this text title =
     (let keywords = weightedKeywords this text title;
          keywordFreq = countFrequency this keywords;
          topKeywords = getTopKeywords this keywordFreq (maxTags this)
      in topKeywords)"


section \<open>The refiner\<close>

text \<open>
  The class \<open>AIService\<close>. \<open>refineTags\<close> is asynchronous: its result is a promise, which is
  fulfilled with a list of tags (\<open>Inr\<close>) or rejected with an exception (\<open>Inl\<close>).
\<close>

record AIServiceSettings =
  openaiApiKey :: ustring
  model :: ustring
  useAI :: bool

datatype exn = NetworkError | ApiError ustring | SyntaxError | TypeError

text \<open>A value that JSON can hold; \<open>None\<close> of \<open>json option\<close> stands for \<open>undefined\<close>.\<close>

datatype json =
    JNull
  | JBool bool
  | JNumber int
  | JString ustring
  | JArray "json list"
  | JObject "(ustring \<times> json) list"

text \<open>
  What the request brings back. The prompt, the model and the key that \<open>refineTags\<close> sends
  only decide which answer the network gives, so the answer is a parameter: \<open>fetch\<close> is
  rejected, or it yields a response with its \<open>ok\<close> flag, its \<open>statusText\<close> and what
  \<open>response.json()\<close> settles to.
\<close>

datatype fetch_result = Rejected | Response bool ustring "exn + json"

text \<open>
  Reading a property, for the four names that \<open>refineTags\<close> reads (\<open>choices\<close>, \<open>0\<close>,
  \<open>message\<close>, \<open>content\<close>; no prototype holds one of them): a \<open>TypeError\<close> on \<open>undefined\<close>
  and \<open>null\<close>, an element of an array or a character of a string under an index, the
  property of an object, and \<open>undefined\<close> otherwise.
\<close>

definition getProp :: "json option \<Rightarrow> ustring \<Rightarrow> exn + json option" where
  "getProp v k =
     (case v of
        None \<Rightarrow> Inl TypeError
      | Some JNull \<Rightarrow> Inl TypeError
      | Some (JObject ps) \<Rightarrow> Inr (map_of ps k)
      | Some (JArray xs) \<Rightarrow>
          Inr (case arrayIndex k of
                 Some i \<Rightarrow> if i < length xs then Some (xs ! i) else None
               | None \<Rightarrow> None)
      | Some (JString s) \<Rightarrow>
          Inr (case arrayIndex k of
                 Some i \<Rightarrow> if i < length s then Some (JString [s ! i]) else None
               | None \<Rightarrow> None)
      | Some _ \<Rightarrow> Inr None)"

definition andThen :: "exn + 'a \<Rightarrow> ('a \<Rightarrow> exn + 'b) \<Rightarrow> exn + 'b" where
  \<comment> \<open>sequencing: an exception skips what follows\<close>
  "andThen x f = (case x of Inl e \<Rightarrow> Inl e | Inr a \<Rightarrow> f a)"

definition quotedPattern :: regex where
  \<comment> \<open>\<^verbatim>\<open>/"([^"]+)"/g\<close>\<close>
  "quotedPattern = seqs [Chr 0x22, Grp (Rep 1 None (Cls [(0, 0x21), (0x23, 0xFFFF)])), Chr 0x22]"

definition quotePattern :: regex where
  \<comment> \<open>\<^verbatim>\<open>/"/g\<close>\<close>
  "quotePattern = Chr 0x22"

definition nonEmptyStrings :: "json list \<Rightarrow> ustring list" where
  \<comment> \<open>\<^verbatim>\<open>.filter(tag => typeof tag === 'string' && tag.length > 0)\<close>\<close>
  "nonEmptyStrings xs = concat (map (\<lambda>x. case x of JString s \<Rightarrow> if 0 < length s then [s] else [] | _ \<Rightarrow> []) xs)"

text \<open>
  The inner \<open>try\<close> and what follows it. \<open>JSON.parse\<close> belongs to the platform and is a
  parameter: it converts its argument to a string and returns the value that the string
  denotes, or throws. In the handler \<open>content.match\<close> is a function only when \<open>content\<close>
  is a string; on any other value the call throws a \<open>TypeError\<close>, which leaves the handler.
\<close>

definition parseContent ::
  "(json option \<Rightarrow> exn + json) \<Rightarrow> ustring list \<Rightarrow> json option \<Rightarrow> exn + ustring list" where
  "parseContent jsonParse tags content =
     (case jsonParse content of
        Inr refinedTags \<Rightarrow>
          (case refinedTags of
             JArray xs \<Rightarrow> Inr (nonEmptyStrings xs)
           | _ \<Rightarrow> Inr tags)
      | Inl parseError \<Rightarrow>
          (case content of
             Some (JString s) \<Rightarrow>
               (let matches = match_g quotedPattern s
                in if matches \<noteq> []
                   then Inr (filter (\<lambda>tag. 0 < length tag) (map (replace_g quotePattern) matches))
                   else Inr tags)
           | _ \<Rightarrow> Inl TypeError))"

text \<open>\<^verbatim>\<open>data.choices[0].message.content\<close>\<close>

definition contentOf :: "json \<Rightarrow> exn + json option" where
  "contentOf data =
     andThen (getProp (Some data) (asc ''choices'')) (\<lambda>choices.
     andThen (getProp choices (asc ''0'')) (\<lambda>choice.
     andThen (getProp choice (asc ''message'')) (\<lambda>message.
     getProp message (asc ''content''))))"

text \<open>The body of the outer \<open>try\<close>.\<close>

definition tryRefine ::
  "fetch_result \<Rightarrow> (json option \<Rightarrow> exn + json) \<Rightarrow> ustring list \<Rightarrow> exn + ustring list" where
  "tryRefine answer jsonParse tags =
     (case answer of
        Rejected \<Rightarrow> Inl NetworkError
      | Response ok statusText body \<Rightarrow>
          if \<not> ok then Inl (ApiError statusText)
          else andThen body (\<lambda>data.
               andThen (contentOf data) (\<lambda>content.
               parseContent jsonParse tags content)))"

definition refineTags ::
  "AIServiceSettings \<Rightarrow> fetch_result \<Rightarrow> (json option \<Rightarrow> exn + json) \<Rightarrow>
   ustring list \<Rightarrow> ustring \<Rightarrow> exn + ustring list" where
  "refineTags settings answer jsonParse tags noteContent =
     (if \<not> useAI settings \<or> openaiApiKey settings = [] then Inr tags
      else (case tryRefine answer jsonParse tags of
              Inr refined \<Rightarrow> Inr refined
            | Inl error \<Rightarrow> Inr tags))"

section \<open>Properties of the frequency table and of the ranking\<close>

lemma map_fst_setProp:
  "map fst (setProp freq k v) = (if k \<in> set (map fst freq) then map fst freq else map fst freq @ [k])"
  by (induction freq) (auto simp: rev_image_eqI)

lemma keys_increment:
  "map fst (increment freq k) =
     (if k \<in> set (map fst freq) \<or> k = asc ''__proto__'' then map fst freq else map fst freq @ [k])"
proof (cases "map_of freq k")
  case None
  then have "k \<notin> set (map fst freq)" by (simp add: map_of_eq_None_iff)
  with None show ?thesis by (simp add: increment_def map_fst_setProp)
next
  case (Some v)
  then have "k \<in> set (map fst freq)" by (metis map_of_eq_None_iff option.distinct(1) set_map)
  with Some show ?thesis by (simp add: increment_def map_fst_setProp)
qed

lemma distinct_keys_foldl_increment:
  "distinct (map fst freq) \<Longrightarrow> distinct (map fst (foldl increment freq ks))"
  by (induction ks arbitrary: freq) (simp_all add: keys_increment)

lemma set_keys_foldl_increment:
  "set (map fst (foldl increment freq ks)) \<subseteq> set (map fst freq) \<union> set ks"
proof (induction ks arbitrary: freq)
  case Nil
  then show ?case by simp
next
  case (Cons k ks)
  have "set (map fst (increment freq k)) \<subseteq> insert k (set (map fst freq))"
    by (simp add: keys_increment subset_insertI)
  with Cons[of "increment freq k"] show ?case by auto
qed

lemma distinct_keys_countFrequency: "distinct (map fst (countFrequency this ks))"
  by (simp add: countFrequency_def distinct_keys_foldl_increment)

lemma set_keys_countFrequency: "set (map fst (countFrequency this ks)) \<subseteq> set ks"
  using set_keys_foldl_increment[of "[]" ks] by (simp add: countFrequency_def)

lemma mset_entries: "mset (entries freq) = mset freq"
  by (simp add: entries_def)

lemma mset_insertSorted: "mset (insertSorted cmp x ys) = add_mset x (mset ys)"
  by (induction ys) simp_all

lemma mset_sortBy: "mset (sortBy cmp xs) = mset xs"
  by (induction xs) (simp_all add: sortBy_def mset_insertSorted)

text \<open>The whole ranking, before \<open>slice\<close> cuts it.\<close>

definition ranked :: "KeywordCount \<Rightarrow> ustring list" where
  "ranked freq = map fst (sortBy comparefn (entries freq))"

lemma mset_ranked: "mset (ranked freq) = mset (map fst freq)"
  by (simp add: ranked_def mset_sortBy mset_entries)

lemma distinct_ranked: "distinct (map fst freq) \<Longrightarrow> distinct (ranked freq)"
  using mset_ranked[of freq] by (metis mset_eq_imp_distinct_iff)

lemma set_ranked: "set (ranked freq) = set (map fst freq)"
  using mset_ranked[of freq] by (metis set_mset_mset)

lemma extractKeywords_slice:
  "extractKeywords this text title =
     slice0 (ranked (countFrequency this (weightedKeywords this text title))) (maxTags this)"
  by (simp add: extractKeywords_def getTopKeywords_def ranked_def)

lemma set_slice0: "set (slice0 xs n) \<subseteq> set xs"
  by (auto simp: slice0_def Let_def dest: in_set_takeD)

lemma distinct_slice0: "distinct xs \<Longrightarrow> distinct (slice0 xs n)"
  by (simp add: slice0_def Let_def)

lemma length_slice0: "0 < n \<Longrightarrow> int (length (slice0 xs n)) \<le> n"
  by (simp add: slice0_def Let_def)

lemma set_extractKeywords:
  "set (extractKeywords this text title) \<subseteq> set (weightedKeywords this text title)"
  using set_slice0 set_ranked set_keys_countFrequency unfolding extractKeywords_slice by fast



section \<open>Properties of the suffix stripper\<close>

lemma replaceFirst_same_length:
  assumes "length (replaceFirst r s) = length s"
  shows "replaceFirst r s = s"
proof (cases "exec r s 0")
  case None
  then show ?thesis by (simp add: replaceFirst_def)
next
  case (Some a)
  obtain b st where a: "a = (b, st)" by (cases a)
  from exec_bounds[of r s 0 b st] Some a have le: "b \<le> fst st" "fst st \<le> length s" by simp_all
  from Some a have eq: "replaceFirst r s = take b s @ drop (fst st) s" by (simp add: replaceFirst_def)
  with assms le have "fst st = b" by simp
  with eq show ?thesis by simp
qed

lemma cleanLoop_stop:
  "length c = p \<or> length c < 2 \<Longrightarrow> cleanLoop this c p = c"
  by (subst cleanLoop.simps) auto

lemma cleanLoop_step:
  "length c \<noteq> p \<Longrightarrow> 2 \<le> length c \<Longrightarrow>
   cleanLoop this c p = cleanLoop this (replaceFirst (suffixPattern this) c) (length c)"
  by (subst cleanLoop.simps) simp

lemma cleanLoop_result:
  "(length c = p \<longrightarrow> length c < 2 \<or> replaceFirst (suffixPattern this) c = c) \<Longrightarrow>
   length (cleanLoop this c p) < 2 \<or>
   replaceFirst (suffixPattern this) (cleanLoop this c p) = cleanLoop this c p"
proof (induction this c p rule: cleanLoop.induct)
  case (1 this cleaned prevLength)
  show ?case
  proof (cases "length cleaned \<noteq> prevLength \<and> 2 \<le> length cleaned")
    case True
    let ?c = "replaceFirst (suffixPattern this) cleaned"
    have "length ?c = length cleaned \<longrightarrow> length ?c < 2 \<or> replaceFirst (suffixPattern this) ?c = ?c"
      using replaceFirst_same_length[of "suffixPattern this" cleaned] by auto
    from "1.IH"[OF True this] True show ?thesis by (simp add: cleanLoop_step)
  next
    case False
    then have "cleanLoop this cleaned prevLength = cleaned" by (intro cleanLoop_stop) auto
    with False "1.prems" show ?thesis by auto
  qed
qed

lemma cleanLoop_length: "length (cleanLoop this c p) \<le> length c"
proof (induction this c p rule: cleanLoop.induct)
  case (1 this cleaned prevLength)
  show ?case
  proof (cases "length cleaned \<noteq> prevLength \<and> 2 \<le> length cleaned")
    case True
    from "1.IH"[OF True] replaceFirst_length[of "suffixPattern this" cleaned] True
    show ?thesis by (simp add: cleanLoop_step)
  next
    case False
    then have "cleanLoop this cleaned prevLength = cleaned" by (intro cleanLoop_stop) auto
    then show ?thesis by simp
  qed
qed

lemma cleanKoreanWord_result:
  "length (cleanKoreanWord this w) < 2 \<or>
   replaceFirst (suffixPattern this) (cleanKoreanWord this w) = cleanKoreanWord this w"
  unfolding cleanKoreanWord_def by (rule cleanLoop_result) auto

lemma cleanLoop_fixed:
  assumes "length c < 2 \<or> replaceFirst (suffixPattern this) c = c"
  shows "cleanLoop this c 0 = c"
proof (cases "length c < 2")
  case True
  then show ?thesis by (simp add: cleanLoop_stop)
next
  case False
  with assms have fx: "replaceFirst (suffixPattern this) c = c" by simp
  from False have "cleanLoop this c 0 = cleanLoop this (replaceFirst (suffixPattern this) c) (length c)"
    by (intro cleanLoop_step) auto
  also have "\<dots> = cleanLoop this c (length c)" by (simp add: fx)
  also have "\<dots> = c" by (simp add: cleanLoop_stop)
  finally show ?thesis .
qed



section \<open>What the patterns match\<close>

lemma matchSpans_exec:
  "x \<in> set (matchSpans r s k) \<Longrightarrow> \<exists>k'. exec r s k' = Some x"
proof (induction r s k rule: matchSpans.induct)
  case (1 r s lastIndex)
  show ?case
  proof (cases "exec r s lastIndex")
    case None
    with "1.prems" show ?thesis by (subst (asm) matchSpans.simps) simp
  next
    case (Some a)
    obtain b st where a: "a = (b, st)" by (cases a)
    from "1.prems" Some a
    have "x = (b, st) \<or> x \<in> set (matchSpans r s (if fst st = b then Suc (fst st) else fst st))"
      by (subst (asm) matchSpans.simps) auto
    then show ?thesis
    proof
      assume "x = (b, st)"
      with Some a show ?thesis by blast
    next
      assume "x \<in> set (matchSpans r s (if fst st = b then Suc (fst st) else fst st))"
      from "1.IH"[OF Some a[symmetric] this] show ?thesis .
    qed
  qed
qed

lemma match_g_elem:
  assumes "w \<in> set (match_g r s)"
  obtains b st where "st \<in> set (matcher r s (b, None))" "b \<le> fst st" "fst st \<le> length s"
    "w = substring s b (fst st)"
proof -
  from assms obtain b st where x: "(b, st) \<in> set (matchSpans r s 0)" and w: "w = substring s b (fst st)"
    by (auto simp: match_g_def)
  from matchSpans_exec[OF x] obtain k where e: "exec r s k = Some (b, st)" by blast
  from exec_Some[OF e] exec_bounds[OF e] w that show ?thesis by blast
qed

lemma length_substring: "e \<le> length s \<Longrightarrow> length (substring s b e) = e - b"
  by (simp add: substring_def)

lemma nth_substring: "e \<le> length s \<Longrightarrow> j < e - b \<Longrightarrow> substring s b e ! j = s ! (b + j)"
  by (simp add: substring_def)

lemma hd_substring: "e \<le> length s \<Longrightarrow> b < e \<Longrightarrow> hd (substring s b e) = s ! b"
  using nth_substring[of e s 0 b] length_substring[of e s b]
  by (metis add.right_neutral hd_conv_nth length_greater_0_conv zero_less_diff)

lemma last_substring: "e \<le> length s \<Longrightarrow> b < e \<Longrightarrow> last (substring s b e) = s ! (e - 1)"
proof -
  assume e: "e \<le> length s" and b: "b < e"
  then have n: "substring s b e \<noteq> []" using length_substring[of e s b] by auto
  from e b have "last (substring s b e) = substring s b e ! (e - b - 1)"
    using last_conv_nth[OF n] by (simp add: length_substring)
  also from e b have "\<dots> = s ! (b + (e - b - 1))" by (intro nth_substring) auto
  also from b have "b + (e - b - 1) = e - 1" by simp
  finally show ?thesis .
qed

lemma match_g_minlen: "w \<in> set (match_g r s) \<Longrightarrow> minlen r \<le> length w"
proof -
  assume "w \<in> set (match_g r s)"
  then obtain b st where m: "st \<in> set (matcher r s (b, None))" and le: "fst st \<le> length s"
    and w: "w = substring s b (fst st)" by (rule match_g_elem)
  from matcher_minlen[OF m] le w show ?thesis by (simp add: length_substring)
qed

lemma matcher_Cls_iff:
  "st' \<in> set (matcher (Cls c) s st) \<longleftrightarrow>
     fst st < length s \<and> inCls c (s ! fst st) \<and> st' = (Suc (fst st), snd st)"
  by auto

lemma matcher_Seq_iff:
  "st' \<in> set (matcher (Seq a b) s st) \<longleftrightarrow> (\<exists>st1 \<in> set (matcher a s st). st' \<in> set (matcher b s st1))"
  by auto

lemma matcher_WordB_D: "st' \<in> set (matcher WordB s st) \<Longrightarrow> st' = st"
  by (simp split: if_splits)

lemma iter_cases:
  assumes "st' \<in> set (iter f mn k st)"
  obtains (stop) "st' = st"
    | (step) k' st1 where "k = Suc k'" "st1 \<in> set (f st)" "st' \<in> set (iter f (mn - 1) k' st1)"
proof (cases k)
  case 0
  with assms stop show ?thesis by simp
next
  case (Suc k')
  with assms have "(\<exists>st1 \<in> set (f st). st' \<in> set (iter f (mn - 1) k' st1)) \<or> st' = st"
    by (auto split: if_splits)
  with Suc stop step show ?thesis by blast
qed

text \<open>A quantified character class matches a run of characters of the class.\<close>

lemma iter_Cls_run:
  "st' \<in> set (iter (matcher (Cls c) s) mn k st) \<Longrightarrow> fst st \<le> j \<Longrightarrow> j < fst st' \<Longrightarrow>
   j < length s \<and> inCls c (s ! j)"
proof (induction k arbitrary: mn st)
  case 0
  then show ?case by simp
next
  case (Suc k)
  from Suc.prems(1) show ?case
  proof (cases rule: iter_cases)
    case stop
    with Suc.prems show ?thesis by simp
  next
    case (step k' st1)
    from step(2) have 1: "fst st < length s" "inCls c (s ! fst st)" "fst st1 = Suc (fst st)"
      by (simp_all add: matcher_Cls_iff)
    show ?thesis
    proof (cases "j = fst st")
      case True
      with 1 show ?thesis by simp
    next
      case False
      with Suc.prems(2) 1 have "fst st1 \<le> j" by simp
      from Suc.IH[OF _ this Suc.prems(3)] step show ?thesis by simp
    qed
  qed
qed

text \<open>
  Where every iteration of a quantified body ends behind a position with the property \<open>P\<close>,
  so does the quantified body, unless it has matched nothing.
\<close>

lemma iter_last:
  assumes f: "\<And>st0 st1. st1 \<in> set (f st0) \<Longrightarrow> fst st0 < fst st1 \<and> P (fst st1)"
  shows "st' \<in> set (iter f mn k st) \<Longrightarrow> fst st' = fst st \<or> (fst st < fst st' \<and> P (fst st'))"
proof (induction k arbitrary: mn st)
  case 0
  then show ?case by simp
next
  case (Suc k)
  from Suc.prems show ?case
  proof (cases rule: iter_cases)
    case stop
    then show ?thesis by simp
  next
    case (step k' st1)
    from f[OF step(2)] have 1: "fst st < fst st1" "P (fst st1)" by simp_all
    from step have "st' \<in> set (iter f (mn - 1) k st1)" by simp
    from Suc.IH[OF this] 1 show ?thesis by auto
  qed
qed


lemma Rep_Cls_run:
  assumes "st' \<in> set (matcher (Rep mn mx (Cls c)) s st)" "fst st \<le> j" "j < fst st'"
  shows "j < length s \<and> inCls c (s ! j)"
proof -
  from assms(1) have "st' \<in> set (iter (matcher (Cls c) s) mn (case mx of None \<Rightarrow> mn + length s | Some k \<Rightarrow> k) st)"
    by simp
  from iter_Cls_run[OF this assms(2,3)] show ?thesis .
qed

lemma acronym_run:
  assumes "st' \<in> set (matcher (seqs [WordB, Rep 2 None (Cls upperC), WordB]) s st)"
  shows "fst st + 2 \<le> fst st'" and "\<And>j. fst st \<le> j \<Longrightarrow> j < fst st' \<Longrightarrow> inCls upperC (s ! j)"
proof -
  from assms obtain st0 st1 where 0: "st0 \<in> set (matcher WordB s st)"
    and 1: "st1 \<in> set (matcher (Rep 2 None (Cls upperC)) s st0)"
    and 2: "st' \<in> set (matcher WordB s st1)"
    by (auto simp only: seqs.simps matcher_Seq_iff)
  from matcher_WordB_D[OF 0] matcher_WordB_D[OF 2] 1
  have m: "st' \<in> set (matcher (Rep 2 None (Cls upperC)) s st)" by simp
  from matcher_minlen[OF m] show "fst st + 2 \<le> fst st'" by simp
  fix j assume "fst st \<le> j" "j < fst st'"
  from Rep_Cls_run[OF m this] show "inCls upperC (s ! j)" by simp
qed

lemma enPattern_first:
  assumes "st' \<in> set (matcher enPattern s st)"
  shows "inCls upperC (s ! fst st)"
proof -
  from assms consider
    (word) "st' \<in> set (matcher (seqs [WordB, Cls upperC, Rep 2 None (Cls letterC), WordB]) s st)"
    | (acr) "st' \<in> set (matcher (seqs [WordB, Rep 2 None (Cls upperC), WordB]) s st)"
    by (auto simp: enPattern_def simp del: seqs.simps)
  then show ?thesis
  proof cases
    case word
    then obtain st0 st1 where 0: "st0 \<in> set (matcher WordB s st)"
      and 1: "st1 \<in> set (matcher (Cls upperC) s st0)"
      by (auto simp only: seqs.simps matcher_Seq_iff)
    from matcher_WordB_D[OF 0] 1 show ?thesis by (simp add: matcher_Cls_iff)
  next
    case acr
    from acronym_run[OF acr] show ?thesis by simp
  qed
qed

lemma match_g_koPattern:
  assumes "w \<in> set (match_g koPattern s)"
  shows "2 \<le> length w" and "\<And>c. c \<in> set w \<Longrightarrow> inCls hangulC c"
proof -
  from assms obtain b st where m: "st \<in> set (matcher koPattern s (b, None))"
    and le: "fst st \<le> length s" and w: "w = substring s b (fst st)" by (rule match_g_elem)
  from match_g_minlen[OF assms] show "2 \<le> length w" by (simp add: koPattern_def)
  fix c assume "c \<in> set w"
  then obtain i where i: "i < length w" "w ! i = c" by (auto simp: in_set_conv_nth)
  with w le have "i < fst st - b" "c = s ! (b + i)" by (simp_all add: length_substring nth_substring)
  moreover from m have "st \<in> set (matcher (Rep 2 None (Cls hangulC)) s (b, None))"
    by (simp only: koPattern_def)
  from Rep_Cls_run[OF this, of "b + i"] \<open>i < fst st - b\<close> have "inCls hangulC (s ! (b + i))" by simp
  ultimately show "inCls hangulC c" by simp
qed

lemma match_g_enPattern:
  assumes "w \<in> set (match_g enPattern s)"
  shows "2 \<le> length w" and "inCls upperC (hd w)"
proof -
  from assms obtain b st where m: "st \<in> set (matcher enPattern s (b, None))"
    and le: "fst st \<le> length s" and w: "w = substring s b (fst st)" by (rule match_g_elem)
  from match_g_minlen[OF assms] show 2: "2 \<le> length w" by (simp add: enPattern_def)
  with w le have "b < fst st" by (simp add: length_substring)
  with w le have "hd w = s ! b" by (simp add: hd_substring)
  with enPattern_first[OF m] show "inCls upperC (hd w)" by simp
qed

lemma match_g_acronymPattern:
  assumes "w \<in> set (match_g acronymPattern s)"
  shows "2 \<le> length w" and "inCls upperC (hd w)" and "inCls upperC (last w)"
proof -
  from assms obtain b st where m: "st \<in> set (matcher acronymPattern s (b, None))"
    and le: "fst st \<le> length s" and w: "w = substring s b (fst st)" by (rule match_g_elem)
  from m have m': "st \<in> set (matcher (seqs [WordB, Rep 2 None (Cls upperC), WordB]) s (b, None))"
    by (simp only: acronymPattern_def)
  from acronym_run(1)[OF m'] have b: "b + 2 \<le> fst st" by simp
  with w le show "2 \<le> length w" by (simp add: length_substring)
  from b w le have "hd w = s ! b" "last w = s ! (fst st - 1)"
    by (simp_all add: hd_substring last_substring)
  with acronym_run(2)[OF m', of b] acronym_run(2)[OF m', of "fst st - 1"] b
  show "inCls upperC (hd w)" and "inCls upperC (last w)" by simp_all
qed

lemma capitalizedPattern_ends:
  assumes "st' \<in> set (matcher capitalizedPattern s st)"
  shows "inCls upperC (s ! fst st)" and "inCls lowerC (s ! (fst st' - 1))"
proof -
  let ?low = "Rep 1 None (Cls lowerC)"
  let ?body = "seqs [Rep 1 None (Cls spaceC), Cls upperC, ?low]"
  let ?P = "\<lambda>p. inCls lowerC (s ! (p - 1))"
  have low: "fst st0 < fst st1 \<and> ?P (fst st1)" if "st1 \<in> set (matcher ?low s st0)" for st0 st1
  proof -
    from matcher_minlen[OF that] have "fst st0 < fst st1" by simp
    with Rep_Cls_run[OF that, of "fst st1 - 1"] show ?thesis by simp
  qed
  have body: "fst st0 < fst st1 \<and> ?P (fst st1)" if "st1 \<in> set (matcher ?body s st0)" for st0 st1
  proof -
    from that obtain sa sb where a: "sa \<in> set (matcher (Rep 1 None (Cls spaceC)) s st0)"
      and b: "sb \<in> set (matcher (Cls upperC) s sa)" and c: "st1 \<in> set (matcher ?low s sb)"
      by (auto simp only: seqs.simps matcher_Seq_iff)
    from matcher_minlen[OF a] matcher_minlen[OF b] low[OF c] show ?thesis by simp
  qed
  from assms obtain s0 s1 s2 s3 where 0: "s0 \<in> set (matcher WordB s st)"
    and 1: "s1 \<in> set (matcher (Cls upperC) s s0)"
    and 2: "s2 \<in> set (matcher ?low s s1)"
    and 3: "s3 \<in> set (matcher (Rep 1 None ?body) s s2)"
    and 4: "st' \<in> set (matcher WordB s s3)"
    by (auto simp only: capitalizedPattern_def seqs.simps matcher_Seq_iff)
  from matcher_WordB_D[OF 0] 1 show "inCls upperC (s ! fst st)" by (simp add: matcher_Cls_iff)
  from 3 have "s3 \<in> set (iter (matcher ?body s) 1 (1 + length s) s2)" by simp
  from iter_last[of "matcher ?body s" ?P, OF body this]
  have "fst s3 = fst s2 \<or> (fst s2 < fst s3 \<and> ?P (fst s3))" .
  moreover from matcher_minlen[OF 3] have "fst s2 < fst s3" by simp
  ultimately have "?P (fst s3)" by simp
  with matcher_WordB_D[OF 4] show "inCls lowerC (s ! (fst st' - 1))" by simp
qed

lemma match_g_capitalizedPattern:
  assumes "w \<in> set (match_g capitalizedPattern s)"
  shows "2 \<le> length w" and "inCls upperC (hd w)" and "inCls lowerC (last w)"
proof -
  from assms obtain b st where m: "st \<in> set (matcher capitalizedPattern s (b, None))"
    and le: "fst st \<le> length s" and w: "w = substring s b (fst st)" by (rule match_g_elem)
  from match_g_minlen[OF assms] show 2: "2 \<le> length w" by (simp add: capitalizedPattern_def)
  with w le have "b < fst st" by (simp add: length_substring)
  with w le have "hd w = s ! b" "last w = s ! (fst st - 1)"
    by (simp_all add: hd_substring last_substring)
  with capitalizedPattern_ends[OF m] show "inCls upperC (hd w)" and "inCls lowerC (last w)"
    by simp_all
qed


lemma match_g_Nil:
  assumes "0 < minlen r"
  shows "match_g r [] = []"
proof -
  have "matcher r [] (0, None) = []"
  proof (rule ccontr)
    assume "matcher r [] (0, None) \<noteq> []"
    then obtain st where st: "st \<in> set (matcher r [] (0, None))" by (cases "matcher r [] (0, None)") auto
    from matcher_minlen[OF st] matcher_bounds[OF _ st] assms show False by simp
  qed
  then have "exec r [] 0 = None" by (simp add: exec_def)
  then have "matchSpans r [] 0 = []" by (subst matchSpans.simps) simp
  then show ?thesis by (simp add: match_g_def)
qed

lemma extractGeneralKeywords_Nil: "extractGeneralKeywords this [] = []"
  by (simp add: extractGeneralKeywords_def match_g_Nil koPattern_def enPattern_def)

subsection \<open>Trimming\<close>

lemma upper_not_space: "inCls upperC c \<Longrightarrow> \<not> inCls spaceC c"
  by (auto simp: inCls_def upperC_def spaceC_def)

lemma lower_not_space: "inCls lowerC c \<Longrightarrow> \<not> inCls spaceC c"
  by (auto simp: inCls_def lowerC_def spaceC_def)

lemma dropWhile_id: "w \<noteq> [] \<Longrightarrow> \<not> P (hd w) \<Longrightarrow> dropWhile P w = w"
  by (cases w) simp_all

lemma trim_id:
  assumes "w \<noteq> []" "\<not> inCls spaceC (hd w)" "\<not> inCls spaceC (last w)"
  shows "trim w = w"
proof -
  from assms have "dropWhile (inCls spaceC) w = w" by (simp add: dropWhile_id)
  moreover from assms have "dropWhile (inCls spaceC) (rev w) = rev w"
    by (intro dropWhile_id) (simp_all add: hd_rev)
  ultimately show ?thesis by (simp add: trim_def)
qed

lemma last_dropWhile: "dropWhile P xs \<noteq> [] \<Longrightarrow> last (dropWhile P xs) = last xs"
  by (induction xs) (auto split: if_splits)

lemma trim_trim: "trim (trim w) = trim w"
proof (cases "trim w = []")
  case True
  have "trim [] = []" by (simp add: trim_def)
  with True show ?thesis by simp
next
  case False
  let ?a = "dropWhile (inCls spaceC) w"
  let ?b = "dropWhile (inCls spaceC) (rev ?a)"
  have t: "trim w = rev ?b" by (simp add: trim_def)
  with False have b: "?b \<noteq> []" by simp
  have a: "?a \<noteq> []"
  proof
    assume "?a = []"
    then have "?b = []" by (simp only: rev.simps dropWhile.simps)
    with b show False by simp
  qed
  from b have "\<not> inCls spaceC (hd ?b)" by (rule hd_dropWhile)
  then have 1: "\<not> inCls spaceC (last (trim w))" using b t by (simp add: last_rev)
  from a have "\<not> inCls spaceC (hd ?a)" by (rule hd_dropWhile)
  moreover from b have "last ?b = last (rev ?a)" by (rule last_dropWhile)
  ultimately have 2: "\<not> inCls spaceC (hd (trim w))" using a b t by (simp add: hd_rev last_rev)
  from trim_id[OF False 2 1] show ?thesis .
qed

subsection \<open>What the extraction modes return\<close>

lemma set_replaceFirst: "set (replaceFirst r s) \<subseteq> set s"
  by (auto simp: replaceFirst_def split: option.splits dest: in_set_takeD in_set_dropD)

lemma set_cleanLoop: "set (cleanLoop this c p) \<subseteq> set c"
proof (induction this c p rule: cleanLoop.induct)
  case (1 this cleaned prevLength)
  show ?case
  proof (cases "length cleaned \<noteq> prevLength \<and> 2 \<le> length cleaned")
    case True
    from "1.IH"[OF True] set_replaceFirst[of "suffixPattern this" cleaned] True
    show ?thesis by (auto simp: cleanLoop_step)
  next
    case False
    then have "cleanLoop this cleaned prevLength = cleaned" by (intro cleanLoop_stop) auto
    then show ?thesis by simp
  qed
qed

lemma general_loop:
  "k \<in> set (foldl (\<lambda>keywords word.
                 let cleaned = cleanKoreanWord this word
                 in if 2 \<le> length cleaned \<and> cleaned \<notin> stopwordsKo this
                    then keywords @ [cleaned] else keywords) acc ws) \<Longrightarrow>
   k \<in> set acc \<or> (\<exists>word \<in> set ws. k = cleanKoreanWord this word \<and> 2 \<le> length k \<and> k \<notin> stopwordsKo this)"
proof (induction ws arbitrary: acc)
  case Nil
  then show ?case by simp
next
  case (Cons w ws)
  from Cons.IH[OF Cons.prems[unfolded foldl_Cons]] show ?case
    by (auto simp: Let_def split: if_splits)
qed

text \<open>
  A general keyword has at least two code units and starts with a Hangul syllable or a capital
  letter; a word of the first script is not in the first stopword list, and a word of the
  second script is not in the second one when put in lower case.
\<close>

lemma extractGeneralKeywords_elem:
  assumes "k \<in> set (extractGeneralKeywords this s)"
  shows "2 \<le> length k" and "inCls hangulC (hd k) \<or> inCls upperC (hd k)"
    and "k \<notin> stopwordsKo this \<or> toLowerCase k \<notin> stopwordsEn this"
proof -
  from assms consider
    (ko) word where "word \<in> set (match_g koPattern s)" "k = cleanKoreanWord this word"
      "2 \<le> length k" "k \<notin> stopwordsKo this"
    | (en) "k \<in> set (match_g enPattern s)" "toLowerCase k \<notin> stopwordsEn this"
    using general_loop[of k this "[]" "match_g koPattern s"]
    by (auto simp: extractGeneralKeywords_def Let_def)
  then have "2 \<le> length k \<and> (inCls hangulC (hd k) \<or> inCls upperC (hd k))
      \<and> (k \<notin> stopwordsKo this \<or> toLowerCase k \<notin> stopwordsEn this)"
  proof cases
    case ko
    from ko(3) have "k \<noteq> []" by auto
    then have "hd k \<in> set k" by simp
    with set_cleanLoop[of this word 0] ko(2) have "hd k \<in> set word" by (auto simp: cleanKoreanWord_def)
    from match_g_koPattern(2)[OF ko(1) this] ko show ?thesis by simp
  next
    case en
    from match_g_enPattern[OF en(1)] en(2) show ?thesis by simp
  qed
  then show "2 \<le> length k" and "inCls hangulC (hd k) \<or> inCls upperC (hd k)"
    and "k \<notin> stopwordsKo this \<or> toLowerCase k \<notin> stopwordsEn this" by simp_all
qed

lemma companyLoop_elem:
  "w \<in> set (companyLoop s k acc) \<Longrightarrow> w \<in> set acc \<or> (2 \<le> length w \<and> trim w = w)"
proof (induction s k acc rule: companyLoop.induct)
  case (1 s lastIndex properNouns)
  show ?case
  proof (cases "exec companyPattern s lastIndex")
    case None
    with "1.prems" show ?thesis by (subst (asm) companyLoop.simps) simp
  next
    case (Some a)
    obtain b st where a: "a = (b, st)" by (cases a)
    let ?company = "trim (capture1 s st)"
    let ?acc = "if 2 \<le> length ?company then properNouns @ [?company] else properNouns"
    from "1.prems" Some a have "w \<in> set (companyLoop s (fst st) ?acc)"
      by (subst (asm) companyLoop.simps) (simp add: Let_def)
    from "1.IH"[OF Some a[symmetric] refl this] show ?thesis
      by (auto simp: trim_trim split: if_splits)
  qed
qed

lemma extractProperNouns_elem:
  assumes "w \<in> set (extractProperNouns this s)"
  shows "2 \<le> length w"
proof -
  from assms obtain x where w: "w = trim x"
    and x: "x \<in> set (companyLoop s 0 []) \<or> x \<in> set (match_g capitalizedPattern s)
            \<or> x \<in> set (match_g acronymPattern s)"
    by (auto simp: extractProperNouns_def Let_def)
  from x have "2 \<le> length x \<and> trim x = x"
  proof (elim disjE)
    assume "x \<in> set (companyLoop s 0 [])"
    from companyLoop_elem[OF this] show ?thesis by simp
  next
    assume c: "x \<in> set (match_g capitalizedPattern s)"
    from match_g_capitalizedPattern[OF c] have "2 \<le> length x" "\<not> inCls spaceC (hd x)" "\<not> inCls spaceC (last x)"
      by (simp_all add: upper_not_space lower_not_space)
    moreover from this(1) have "x \<noteq> []" by auto
    ultimately show ?thesis by (simp add: trim_id)
  next
    assume c: "x \<in> set (match_g acronymPattern s)"
    from match_g_acronymPattern[OF c] have "2 \<le> length x" "\<not> inCls spaceC (hd x)" "\<not> inCls spaceC (last x)"
      by (simp_all add: upper_not_space)
    moreover from this(1) have "x \<noteq> []" by auto
    ultimately show ?thesis by (simp add: trim_id)
  qed
  with w show ?thesis by simp
qed

lemma extractNumbers_elem:
  assumes "w \<in> set (extractNumbers this s)"
  shows "2 \<le> length w"
proof -
  from assms consider "w \<in> set (match_g moneyPattern s)" | "w \<in> set (match_g datePattern s)"
    | "w \<in> set (match_g largeNumPattern s)"
    by (auto simp: extractNumbers_def Let_def)
  then show ?thesis
  proof cases
    case 1
    from match_g_minlen[OF 1] show ?thesis by (simp add: moneyPattern_def)
  next
    case 2
    from match_g_minlen[OF 2] show ?thesis by (simp add: datePattern_def)
  next
    case 3
    from match_g_minlen[OF 3] show ?thesis by (simp add: largeNumPattern_def)
  qed
qed

lemma weightedKeywords_eq:
  "weightedKeywords this text title =
     extractGeneralKeywords this title @ extractGeneralKeywords this title
     @ extractGeneralKeywords this title
     @ extractProperNouns this text @ extractProperNouns this text
     @ extractGeneralKeywords this text @ extractNumbers this text"
  by (simp add: weightedKeywords_def Let_def extractGeneralKeywords_Nil)

lemma weightedKeywords_elem:
  "k \<in> set (weightedKeywords this text title) \<Longrightarrow> 2 \<le> length k"
  using extractGeneralKeywords_elem(1) extractProperNouns_elem extractNumbers_elem
  by (auto simp: weightedKeywords_eq)


subsection \<open>Counts of ordinary keywords\<close>









subsection \<open>The refiner\<close>

lemma parseContent_fallback:
  assumes "case jsonParse content of
             Inr v \<Rightarrow> (case v of JArray xs \<Rightarrow> False | _ \<Rightarrow> True)
           | Inl e \<Rightarrow> (case content of Some (JString s) \<Rightarrow> match_g quotedPattern s = [] | _ \<Rightarrow> True)"
  shows "parseContent jsonParse tags content = Inr tags \<or> isl (parseContent jsonParse tags content)"
  using assms
  by (auto simp: parseContent_def Let_def split: sum.splits json.splits option.splits)

section \<open>The claims\<close>

text \<open>
  C1. A construction with \<open>maxTags \<le> 0\<close> is claimed to be rejected with a
  \<open>ConfigurationError\<close>. The constructor stores its argument and nothing else: at
  \<open>maxTags = 0\<close> it returns an extractor whose \<open>maxTags\<close> is 0.
\<close>

theorem constructor_accepts_zero:
  "\<not> isl (KeywordExtractor 0) \<and> KeywordExtractor 0 \<noteq> Inl ConfigurationError
   \<and> maxTags (projr (KeywordExtractor 0)) = 0"
  by (simp add: KeywordExtractor_def)

text \<open>
  C1, as the code has it. Every \<open>maxTags \<le> 0\<close> is accepted and stored unchanged. The only
  place that reads it is the \<open>slice(0, maxTags)\<close> of the ranking: at 0 the result is empty,
  and at \<open>-k\<close> the result is the ranking without its last \<open>k\<close> entries.
\<close>

theorem constructor_nonpositive_accepted:
  "n \<le> 0 \<Longrightarrow>
   \<not> isl (KeywordExtractor n) \<and> maxTags (projr (KeywordExtractor n)) = n \<and>
   extractKeywords (projr (KeywordExtractor n)) text title =
     (let r = ranked (countFrequency (projr (KeywordExtractor n))
                        (weightedKeywords (projr (KeywordExtractor n)) text title))
      in if n = 0 then [] else take (length r - nat (- n)) r)"
proof -
  assume n: "n \<le> 0"
  have m: "maxTags (projr (KeywordExtractor n)) = n" by (simp add: KeywordExtractor_def)
  have "slice0 r n = (if n = 0 then [] else take (length r - nat (- n)) r)" for r :: "ustring list"
    using n by (auto simp: slice0_def Let_def max_def intro: arg_cong2[where f = take])
  with m show ?thesis
    unfolding extractKeywords_slice by (simp add: KeywordExtractor_def Let_def)
qed

theorem constructor_nonpositive_accepted_witness:
  "(-1::int) \<le> 0 \<and> \<not> isl (KeywordExtractor (-1)) \<and> maxTags (projr (KeywordExtractor (-1))) = -1 \<and>
   extractKeywords (projr (KeywordExtractor (-1))) (asc ''AB CD'') [] = [asc ''AB'']"
proof -
  have r: "ranked (countFrequency (projr (KeywordExtractor (-1)))
             (weightedKeywords (projr (KeywordExtractor (-1))) (asc ''AB CD'') []))
           = [asc ''AB'', asc ''CD'']"
    by code_simp
  from constructor_nonpositive_accepted[of "-1" "asc ''AB CD''" "[]"] r show ?thesis
    by (simp add: Let_def)
qed

text \<open>
  C2. No member of a stopword list is to appear in the result. \<open>extractGeneralKeywords\<close>
  filters its candidates against both lists (\<open>extractGeneralKeywords_elem\<close>), but
  \<open>extractProperNouns\<close> does not, although its acronym pattern is the second alternative of
  the pattern of the general words: the text \<open>THE\<close> yields the stopword \<open>the\<close> in capitals,
  and the text U+321C U+AD00 U+ACC4 (the company mark and a word of the first list) yields
  that word of the first list.
\<close>

theorem stopword_from_proper_nouns:
  "extractKeywords (projr (KeywordExtractor 10)) (asc ''THE'') [] = [asc ''THE'']
   \<and> toLowerCase (asc ''THE'') \<in> stopwordsEn (projr (KeywordExtractor 10))
   \<and> extractKeywords (projr (KeywordExtractor 10)) [0x321C, 0xAD00, 0xACC4] [] = [[0xAD00, 0xACC4]]
   \<and> [0xAD00, 0xACC4] \<in> stopwordsKo (projr (KeywordExtractor 10))"
proof -
  have 1: "extractKeywords (projr (KeywordExtractor 10)) (asc ''THE'') [] = [asc ''THE'']"
    by code_simp
  have 2: "toLowerCase (asc ''THE'') \<in> stopwordsEn (projr (KeywordExtractor 10))"
    by code_simp
  have 3: "extractKeywords (projr (KeywordExtractor 10)) [0x321C, 0xAD00, 0xACC4] [] = [[0xAD00, 0xACC4]]"
    by code_simp
  have 4: "[0xAD00, 0xACC4] \<in> stopwordsKo (projr (KeywordExtractor 10))"
    by code_simp
  from 1 2 3 4 show ?thesis by blast
qed

text \<open>
  C3. The result of the suffix stripper on a word of the first script of length \<open>\<ge> 2\<close> is
  claimed to have length \<open>\<ge> 2\<close>: no suffix is removed whose removal leaves fewer than two
  characters. The loop has this floor of two characters as its guard, but tests it on the
  word before \<open>replace\<close> and not on what \<open>replace\<close> leaves. U+C774 U+AC00 and
  U+AD6D U+AC00 have two syllables, the second of which is a suffix, and are cut to one;
  U+C5D0 U+C11C is a suffix as a whole and is cut to the empty word. \<open>extractGeneralKeywords\<close>
  then drops each of them.
\<close>

theorem cleanKoreanWord_short_result:
  "2 \<le> length [0xC774, 0xAC00 :: nat] \<and> list_all (inCls hangulC) [0xC774, 0xAC00]
   \<and> cleanKoreanWord (projr (KeywordExtractor 10)) [0xC774, 0xAC00] = [0xC774]
   \<and> \<not> 2 \<le> length (cleanKoreanWord (projr (KeywordExtractor 10)) [0xC774, 0xAC00])
   \<and> cleanKoreanWord (projr (KeywordExtractor 10)) [0xAD6D, 0xAC00] = [0xAD6D]
   \<and> cleanKoreanWord (projr (KeywordExtractor 10)) [0xC5D0, 0xC11C] = []
   \<and> extractGeneralKeywords (projr (KeywordExtractor 10)) [0xAD6D, 0xAC00] = []"
proof -
  have 1: "cleanKoreanWord (projr (KeywordExtractor 10)) [0xC774, 0xAC00] = [0xC774]"
    by code_simp
  have 2: "list_all (inCls hangulC) [0xC774, 0xAC00]" by code_simp
  have 3: "cleanKoreanWord (projr (KeywordExtractor 10)) [0xAD6D, 0xAC00] = [0xAD6D]"
    by code_simp
  have 4: "cleanKoreanWord (projr (KeywordExtractor 10)) [0xC5D0, 0xC11C] = []"
    by code_simp
  have 5: "extractGeneralKeywords (projr (KeywordExtractor 10)) [0xAD6D, 0xAC00] = []"
    by code_simp
  from 1 2 3 4 5 show ?thesis by simp
qed

text \<open>
  C4. The result is claimed to be sorted by descending count in the weighted sequence. The
  frequency table is a plain object, so a keyword that is the name of a function inherited
  from \<open>Object.prototype\<close> finds that function where it expects its count, and its entry
  becomes a string that the comparison function turns into \<open>NaN\<close>. In the text below (the
  company mark U+321C before each name) \<open>valueOf\<close> is weighted twice and \<open>toString\<close>
  four times, and \<open>valueOf\<close> comes first.
\<close>

theorem ranking_ignores_count_of_inherited_name:
  "weightedKeywords (projr (KeywordExtractor 10)) ([0x321C] @ asc ''valueOf '' @ [0x321C] @ asc ''toString '' @ [0x321C] @ asc ''toString'') []
     = [asc ''valueOf'', asc ''toString'', asc ''toString'',
        asc ''valueOf'', asc ''toString'', asc ''toString'']
   \<and> count_list (weightedKeywords (projr (KeywordExtractor 10)) ([0x321C] @ asc ''valueOf '' @ [0x321C] @ asc ''toString '' @ [0x321C] @ asc ''toString'') []) (asc ''valueOf'') = 2
   \<and> count_list (weightedKeywords (projr (KeywordExtractor 10)) ([0x321C] @ asc ''valueOf '' @ [0x321C] @ asc ''toString '' @ [0x321C] @ asc ''toString'') []) (asc ''toString'') = 4
   \<and> countFrequency (projr (KeywordExtractor 10)) (weightedKeywords (projr (KeywordExtractor 10)) ([0x321C] @ asc ''valueOf '' @ [0x321C] @ asc ''toString '' @ [0x321C] @ asc ''toString'') [])
     = [(asc ''valueOf'', FunctionText 2), (asc ''toString'', FunctionText 4)]
   \<and> extractKeywords (projr (KeywordExtractor 10)) ([0x321C] @ asc ''valueOf '' @ [0x321C] @ asc ''toString '' @ [0x321C] @ asc ''toString'') []
     = [asc ''valueOf'', asc ''toString'']"
proof -
  have 1: "weightedKeywords (projr (KeywordExtractor 10)) ([0x321C] @ asc ''valueOf '' @ [0x321C] @ asc ''toString '' @ [0x321C] @ asc ''toString'') []
     = [asc ''valueOf'', asc ''toString'', asc ''toString'',
        asc ''valueOf'', asc ''toString'', asc ''toString'']"
    by code_simp
  have 2: "countFrequency (projr (KeywordExtractor 10)) [asc ''valueOf'', asc ''toString'', asc ''toString'',
        asc ''valueOf'', asc ''toString'', asc ''toString'']
     = [(asc ''valueOf'', FunctionText 2), (asc ''toString'', FunctionText 4)]"
    by code_simp
  have 3: "getTopKeywords (projr (KeywordExtractor 10))
             [(asc ''valueOf'', FunctionText 2), (asc ''toString'', FunctionText 4)]
             (maxTags (projr (KeywordExtractor 10)))
      = [asc ''valueOf'', asc ''toString'']"
    by code_simp
  have 4: "count_list [asc ''valueOf'', asc ''toString'', asc ''toString'',
        asc ''valueOf'', asc ''toString'', asc ''toString''] (asc ''valueOf'') = 2"
    by code_simp
  have 5: "count_list [asc ''valueOf'', asc ''toString'', asc ''toString'',
        asc ''valueOf'', asc ''toString'', asc ''toString''] (asc ''toString'') = 4"
    by code_simp
  from 1 2 3 4 5 show ?thesis by (simp add: extractKeywords_def)
qed

text \<open>
  C5. For every text and title, an extractor constructed with a positive \<open>maxTags = N\<close>
  returns at most \<open>N\<close> keywords.
\<close>

theorem extractKeywords_length_le:
  "0 < N \<Longrightarrow> KeywordExtractor N = Inr this \<Longrightarrow>
   int (length (extractKeywords this text title)) \<le> N"
proof -
  assume N: "0 < N" and k: "KeywordExtractor N = Inr this"
  from k have "maxTags this = N" by (auto simp: KeywordExtractor_def)
  with N show ?thesis unfolding extractKeywords_slice by (simp add: length_slice0)
qed

theorem extractKeywords_length_le_witness:
  "(0::int) < 2 \<and> KeywordExtractor 2 = Inr (projr (KeywordExtractor 2))
   \<and> extractKeywords (projr (KeywordExtractor 2)) (asc ''AB CD EF'') [] = [asc ''AB'', asc ''CD'']
   \<and> int (length (extractKeywords (projr (KeywordExtractor 2)) (asc ''AB CD EF'') [])) \<le> 2"
proof -
  have 1: "(0::int) < 2" by simp
  have 2: "KeywordExtractor 2 = Inr (projr (KeywordExtractor 2))" by (simp add: KeywordExtractor_def)
  have 3: "extractKeywords (projr (KeywordExtractor 2)) (asc ''AB CD EF'') [] = [asc ''AB'', asc ''CD'']"
    by code_simp
  from extractKeywords_length_le[OF 1 2, of "asc ''AB CD EF''" "[]"] 1 2 3 show ?thesis by blast
qed

text \<open>
  C6. For every text and title, the result of \<open>extractKeywords\<close> has no duplicate entries.
\<close>

theorem extractKeywords_distinct: "distinct (extractKeywords this text title)"
  unfolding extractKeywords_slice
  by (intro distinct_slice0 distinct_ranked distinct_keys_countFrequency)

theorem extractKeywords_distinct_witness:
  "extractKeywords (projr (KeywordExtractor 10)) (asc ''AB CD AB'') [] = [asc ''AB'', asc ''CD'']
   \<and> distinct (extractKeywords (projr (KeywordExtractor 10)) (asc ''AB CD AB'') [])"
proof -
  have "extractKeywords (projr (KeywordExtractor 10)) (asc ''AB CD AB'') [] = [asc ''AB'', asc ''CD'']"
    by code_simp
  with extractKeywords_distinct[of "projr (KeywordExtractor 10)" "asc ''AB CD AB''" "[]"]
  show ?thesis by blast
qed



text \<open>
  C8. Suffix stripping is idempotent: the stripper returns its own result unchanged.
\<close>

theorem cleanKoreanWord_idempotent:
  "cleanKoreanWord this (cleanKoreanWord this w) = cleanKoreanWord this w"
  using cleanLoop_fixed[OF cleanKoreanWord_result[of this w]] by (simp add: cleanKoreanWord_def)

theorem cleanKoreanWord_idempotent_witness:
  "cleanKoreanWord (projr (KeywordExtractor 10)) [0xD68C, 0xC0AC, 0xC5D0, 0xC11C, 0xB294] = [0xD68C, 0xC0AC]
   \<and> cleanKoreanWord (projr (KeywordExtractor 10)) [0xD68C, 0xC0AC] = [0xD68C, 0xC0AC]"
proof -
  have 1: "cleanKoreanWord (projr (KeywordExtractor 10)) [0xD68C, 0xC0AC, 0xC5D0, 0xC11C, 0xB294] = [0xD68C, 0xC0AC]"
    by code_simp
  from cleanKoreanWord_idempotent[of "projr (KeywordExtractor 10)" "[0xD68C, 0xC0AC, 0xC5D0, 0xC11C, 0xB294]"] 1
  show ?thesis by simp
qed

text \<open>
  C9. The refiner returns the candidate tags unchanged when refinement is disabled, when the
  credential is empty, and when the request fails: \<open>fetch\<close> is rejected, the response is not
  \<open>ok\<close>, its body is no JSON or has no \<open>choices[0].message.content\<close>, or the content neither
  parses as an array nor holds a quoted substring. In no case is the promise rejected.
\<close>

theorem refineTags_fallback:
  "(\<not> useAI settings \<or> openaiApiKey settings = []
      \<or> answer = Rejected
      \<or> (\<exists>statusText body. answer = Response False statusText body)
      \<or> (\<exists>statusText e. answer = Response True statusText (Inl e))
      \<or> (\<exists>statusText data e. answer = Response True statusText (Inr data) \<and> contentOf data = Inl e)
      \<or> (\<exists>statusText data content. answer = Response True statusText (Inr data)
            \<and> contentOf data = Inr content
            \<and> (case jsonParse content of
                  Inr v \<Rightarrow> (case v of JArray xs \<Rightarrow> False | _ \<Rightarrow> True)
                | Inl e \<Rightarrow> (case content of
                             Some (JString s) \<Rightarrow> match_g quotedPattern s = []
                           | _ \<Rightarrow> True)))
    \<longrightarrow> refineTags settings answer jsonParse tags noteContent = Inr tags)
   \<and> \<not> isl (refineTags settings answer jsonParse tags noteContent)"
proof (intro conjI impI)
  show "\<not> isl (refineTags settings answer jsonParse tags noteContent)"
    by (simp add: refineTags_def split: sum.splits)
next
  assume a: "\<not> useAI settings \<or> openaiApiKey settings = []
      \<or> answer = Rejected
      \<or> (\<exists>statusText body. answer = Response False statusText body)
      \<or> (\<exists>statusText e. answer = Response True statusText (Inl e))
      \<or> (\<exists>statusText data e. answer = Response True statusText (Inr data) \<and> contentOf data = Inl e)
      \<or> (\<exists>statusText data content. answer = Response True statusText (Inr data)
            \<and> contentOf data = Inr content
            \<and> (case jsonParse content of
                  Inr v \<Rightarrow> (case v of JArray xs \<Rightarrow> False | _ \<Rightarrow> True)
                | Inl e \<Rightarrow> (case content of
                             Some (JString s) \<Rightarrow> match_g quotedPattern s = []
                           | _ \<Rightarrow> True)))"
  show "refineTags settings answer jsonParse tags noteContent = Inr tags"
  proof (cases "\<not> useAI settings \<or> openaiApiKey settings = []")
    case True
    then show ?thesis by (auto simp: refineTags_def)
  next
    case False
    with a consider
      (rejected) "answer = Rejected"
      | (not_ok) statusText body where "answer = Response False statusText body"
      | (no_json) statusText e where "answer = Response True statusText (Inl e)"
      | (no_content) statusText data e where "answer = Response True statusText (Inr data)"
          "contentOf data = Inl e"
      | (no_tags) statusText data content where "answer = Response True statusText (Inr data)"
          "contentOf data = Inr content"
          "case jsonParse content of
             Inr v \<Rightarrow> (case v of JArray xs \<Rightarrow> False | _ \<Rightarrow> True)
           | Inl e \<Rightarrow> (case content of
                        Some (JString s) \<Rightarrow> match_g quotedPattern s = []
                      | _ \<Rightarrow> True)"
      by blast
    then have "tryRefine answer jsonParse tags = Inr tags \<or> isl (tryRefine answer jsonParse tags)"
    proof cases
      case rejected
      then show ?thesis by (simp add: tryRefine_def)
    next
      case not_ok
      then show ?thesis by (simp add: tryRefine_def)
    next
      case no_json
      then show ?thesis by (simp add: tryRefine_def andThen_def)
    next
      case no_content
      then show ?thesis by (simp add: tryRefine_def andThen_def)
    next
      case no_tags
      from no_tags(1,2) have "tryRefine answer jsonParse tags = parseContent jsonParse tags content"
        by (simp add: tryRefine_def andThen_def)
      with parseContent_fallback[where jsonParse = jsonParse and tags = tags, OF no_tags(3)]
      show ?thesis by simp
    qed
    with False show ?thesis by (auto simp: refineTags_def split: sum.splits)
  qed
qed

theorem refineTags_fallback_witness:
  "refineTags \<lparr>openaiApiKey = asc ''sk'', model = asc ''gpt-4'', useAI = False\<rparr>
      Rejected (\<lambda>v. Inl SyntaxError) [asc ''AB''] [] = Inr [asc ''AB'']
   \<and> refineTags \<lparr>openaiApiKey = asc ''sk'', model = asc ''gpt-4'', useAI = True\<rparr>
      Rejected (\<lambda>v. Inl SyntaxError) [asc ''AB''] [] = Inr [asc ''AB'']
   \<and> refineTags \<lparr>openaiApiKey = asc ''sk'', model = asc ''gpt-4'', useAI = True\<rparr>
      (Response False (asc ''Unauthorized'') (Inl SyntaxError)) (\<lambda>v. Inl SyntaxError)
      [asc ''AB''] [] = Inr [asc ''AB'']
   \<and> refineTags \<lparr>openaiApiKey = asc ''sk'', model = asc ''gpt-4'', useAI = True\<rparr>
      (Response True (asc ''OK'')
         (Inr (JObject [(asc ''choices'',
            JArray [JObject [(asc ''message'',
              JObject [(asc ''content'', JString (asc ''none''))])]])])))
      (\<lambda>v. Inl SyntaxError) [asc ''AB''] [] = Inr [asc ''AB'']"
proof -
  let ?off = "\<lparr>openaiApiKey = asc ''sk'', model = asc ''gpt-4'', useAI = False\<rparr>"
  let ?on = "\<lparr>openaiApiKey = asc ''sk'', model = asc ''gpt-4'', useAI = True\<rparr>"
  let ?p = "\<lambda>v :: json option. (Inl SyntaxError :: exn + json)"
  let ?data = "JObject [(asc ''choices'',
            JArray [JObject [(asc ''message'',
              JObject [(asc ''content'', JString (asc ''none''))])]])]"
  have 1: "refineTags ?off Rejected ?p [asc ''AB''] [] = Inr [asc ''AB'']"
    using refineTags_fallback[of ?off Rejected ?p "[asc ''AB'']" "[]", THEN conjunct1] by simp
  have 2: "refineTags ?on Rejected ?p [asc ''AB''] [] = Inr [asc ''AB'']"
    using refineTags_fallback[of ?on Rejected ?p "[asc ''AB'']" "[]", THEN conjunct1] by simp
  have 3: "refineTags ?on (Response False (asc ''Unauthorized'') (Inl SyntaxError)) ?p [asc ''AB''] []
            = Inr [asc ''AB'']"
    using refineTags_fallback[of ?on "Response False (asc ''Unauthorized'') (Inl SyntaxError)" ?p
        "[asc ''AB'']" "[]", THEN conjunct1] by simp
  have c: "contentOf ?data = Inr (Some (JString (asc ''none'')))"
    by code_simp
  have m: "match_g quotedPattern (asc ''none'') = []"
    by code_simp
  have 4: "refineTags ?on (Response True (asc ''OK'') (Inr ?data)) ?p [asc ''AB''] []
            = Inr [asc ''AB'']"
    using refineTags_fallback[of ?on "Response True (asc ''OK'') (Inr ?data)" ?p
        "[asc ''AB'']" "[]", THEN conjunct1] c m by simp
  from 1 2 3 4 show ?thesis by blast
qed

text \<open>
  C10. Every keyword that \<open>extractKeywords\<close> returns has at least two code units: each
  extraction mode (general words of both scripts, proper nouns, numeric and date tokens)
  yields only such candidates, and the result holds candidates only.
\<close>

theorem extractKeywords_min_length:
  "(\<forall>k \<in> set (extractGeneralKeywords this s). 2 \<le> length k)
   \<and> (\<forall>k \<in> set (extractProperNouns this s). 2 \<le> length k)
   \<and> (\<forall>k \<in> set (extractNumbers this s). 2 \<le> length k)
   \<and> (\<forall>k \<in> set (extractKeywords this text title). 2 \<le> length k)"
  using extractGeneralKeywords_elem(1)[of _ this s] extractProperNouns_elem[of _ this s]
    extractNumbers_elem[of _ this s]
    set_extractKeywords[of this "text" title] weightedKeywords_elem[of _ this "text" title]
  by blast

theorem extractKeywords_min_length_witness:
  "asc ''AB'' \<in> set (extractGeneralKeywords (projr (KeywordExtractor 10)) [0x41, 0x42, 0x20, 0x35, 0xC6D0])
   \<and> asc ''AB'' \<in> set (extractProperNouns (projr (KeywordExtractor 10)) [0x41, 0x42, 0x20, 0x35, 0xC6D0])
   \<and> [0x35, 0xC6D0] \<in> set (extractNumbers (projr (KeywordExtractor 10)) [0x41, 0x42, 0x20, 0x35, 0xC6D0])
   \<and> [0x35, 0xC6D0] \<in> set (extractKeywords (projr (KeywordExtractor 10)) [0x41, 0x42, 0x20, 0x35, 0xC6D0] [])
   \<and> 2 \<le> length (asc ''AB'') \<and> 2 \<le> length [0x35, 0xC6D0 :: nat]"
proof -
  have g: "extractGeneralKeywords (projr (KeywordExtractor 10)) [0x41, 0x42, 0x20, 0x35, 0xC6D0] = [asc ''AB'']"
    by code_simp
  have p: "extractProperNouns (projr (KeywordExtractor 10)) [0x41, 0x42, 0x20, 0x35, 0xC6D0] = [asc ''AB'']"
    by code_simp
  have n: "extractNumbers (projr (KeywordExtractor 10)) [0x41, 0x42, 0x20, 0x35, 0xC6D0] = [[0x35, 0xC6D0]]"
    by code_simp
  have e: "extractKeywords (projr (KeywordExtractor 10)) [0x41, 0x42, 0x20, 0x35, 0xC6D0] [] = [asc ''AB'', [0x35, 0xC6D0]]"
    by code_simp
  note t = extractKeywords_min_length[of "projr (KeywordExtractor 10)" "[0x41, 0x42, 0x20, 0x35, 0xC6D0]" "[0x41, 0x42, 0x20, 0x35, 0xC6D0]" "[]"]
  have mg: "asc ''AB'' \<in> set (extractGeneralKeywords (projr (KeywordExtractor 10)) [0x41, 0x42, 0x20, 0x35, 0xC6D0])"
    by (simp add: g)
  have me: "[0x35, 0xC6D0] \<in> set (extractKeywords (projr (KeywordExtractor 10)) [0x41, 0x42, 0x20, 0x35, 0xC6D0] [])"
    by (simp add: e)
  from t have 1: "2 \<le> length (asc ''AB'')" using mg by blast
  from t have 2: "2 \<le> length [0x35, 0xC6D0 :: nat]" using me by blast
  from 1 2 mg me show ?thesis by (simp add: p n)
qed

end
